theory Spec2Isabelle
  imports Complex_Main "HOL-Library.Monad_Syntax"
begin

section \<open>Object graph\<close>

text \<open>
  Objects and canvases live in two heaps indexed by natural numbers; object identity
  (\<^verbatim>\<open>===\<close>) is equality of indices.  A JavaScript number is a \<^typ>\<open>real option\<close>:
  \<open>None\<close> stands for a value that is not a usable number (\<^verbatim>\<open>undefined\<close> or
  \<^verbatim>\<open>NaN\<close>), and arithmetic is exact on the rest.
\<close>

type_synonym num = "real option"

type_synonym point = "num \<times> num"

type_synonym TMat = "num list"

record Geometry =
  left :: num
  top' :: num
  width :: num
  height :: num
  angle :: num
  skewX :: num
  skewY :: num
  scaleX :: num
  scaleY :: num
  flipX :: bool
  flipY :: bool

record FabricObject =
  group :: "nat option"
  canvas :: "nat option"
  objects :: "nat list"
  activeObjects :: "nat list"
  firstLayoutDone :: bool
  layout :: string
  subTargetCheck :: bool
  interactive :: bool
  dirty :: bool
  clipPath :: "nat option"
  absolutePositioned :: bool
  listeners :: "nat list"
  geom :: Geometry

record StaticCanvas =
  canvasObjects :: "nat list"
  activeObject :: "nat option"

text \<open>\<^verbatim>\<open>type TAncestor = FabricObject | StaticCanvas\<close>\<close>

datatype TAncestor = Obj nat | Cnv nat

record AncestryComparison =
  common :: "TAncestor list"
  fork :: "TAncestor list"
  otherFork :: "TAncestor list"

section \<open>Ancestry mixin\<close>

text \<open>
  \<^verbatim>\<open>parent.group || parent.canvas\<close> (and, in strict mode,
  \<^verbatim>\<open>parent.group || undefined\<close>).  A canvas has neither property.
\<close>

definition parentOf :: "(nat \<Rightarrow> FabricObject) \<Rightarrow> bool \<Rightarrow> TAncestor \<Rightarrow> TAncestor option" where
  "parentOf h strict p =
     (case p of
        Cnv c \<Rightarrow> None
      | Obj x \<Rightarrow>
          (case group (h x) of
             Some g \<Rightarrow> Some (Obj g)
           | None \<Rightarrow> if strict then None else map_option Cnv (canvas (h x))))"

text \<open>
  The \<^verbatim>\<open>while (parent)\<close> loop of \<^verbatim>\<open>isDescendantOf\<close>.  The loop runs forever on a
  cyclic parent chain; the first argument bounds the number of iterations and \<open>None\<close>
  says that the bound was reached.
\<close>

fun isDescendantOf_loop :: "nat \<Rightarrow> (nat \<Rightarrow> FabricObject) \<Rightarrow> TAncestor \<Rightarrow> TAncestor option \<Rightarrow> bool option" where
  "isDescendantOf_loop 0 h target parent = None"
| "isDescendantOf_loop (Suc n) h target parent =
     (case parent of
        None \<Rightarrow> Some False
      | Some p \<Rightarrow>
          if target = p then Some True
          else (case p of
                  Cnv c \<Rightarrow> Some False
                | Obj x \<Rightarrow> isDescendantOf_loop n h target (parentOf h False p)))"

definition isDescendantOf :: "nat \<Rightarrow> (nat \<Rightarrow> FabricObject) \<Rightarrow> nat \<Rightarrow> TAncestor \<Rightarrow> bool option" where
  "isDescendantOf n h this target = isDescendantOf_loop n h target (parentOf h False (Obj this))"

text \<open>The loop of \<^verbatim>\<open>getAncestors\<close>, with the array \<^verbatim>\<open>ancestors\<close> as accumulator.\<close>

fun getAncestors_loop :: "nat \<Rightarrow> (nat \<Rightarrow> FabricObject) \<Rightarrow> bool \<Rightarrow> TAncestor option \<Rightarrow> TAncestor list \<Rightarrow> TAncestor list option" where
  "getAncestors_loop 0 h strict parent ancestors = None"
| "getAncestors_loop (Suc n) h strict parent ancestors =
     (case parent of
        None \<Rightarrow> Some ancestors
      | Some p \<Rightarrow> getAncestors_loop n h strict (parentOf h strict p) (ancestors @ [p]))"

definition getAncestors :: "nat \<Rightarrow> (nat \<Rightarrow> FabricObject) \<Rightarrow> nat \<Rightarrow> bool \<Rightarrow> TAncestor list option" where
  "getAncestors n h this strict = getAncestors_loop n h strict (parentOf h strict (Obj this)) []"

text \<open>
  The two nested \<^verbatim>\<open>for\<close> loops of \<^verbatim>\<open>findCommonAncestors\<close>.  \<open>None\<close> means that the
  loop ran to its end without returning.
\<close>

function findCommonAncestors_inner ::
  "nat \<Rightarrow> nat \<Rightarrow> TAncestor list \<Rightarrow> TAncestor list \<Rightarrow> nat \<Rightarrow> nat \<Rightarrow> AncestryComparison option" where
  "findCommonAncestors_inner this other ancestors otherAncestors i j =
     (if j < length otherAncestors then
        (if Obj this = otherAncestors ! j then
           Some \<lparr>common = Obj this # ancestors,
                 fork = [],
                 otherFork = Obj other # take j otherAncestors\<rparr>
         else if ancestors ! i = otherAncestors ! j then
           Some \<lparr>common = drop i ancestors,
                 fork = Obj this # take i ancestors,
                 otherFork = Obj other # take j otherAncestors\<rparr>
         else findCommonAncestors_inner this other ancestors otherAncestors i (Suc j))
      else None)"
  by pat_completeness auto
termination
  by (relation "measure (\<lambda>(this, other, ancestors, otherAncestors, i, j). length otherAncestors - j)") auto

declare findCommonAncestors_inner.simps [simp del]

function findCommonAncestors_outer ::
  "nat \<Rightarrow> nat \<Rightarrow> TAncestor list \<Rightarrow> TAncestor list \<Rightarrow> nat \<Rightarrow> AncestryComparison option" where
  "findCommonAncestors_outer this other ancestors otherAncestors i =
     (if i < length ancestors then
        (if ancestors ! i = Obj other then
           Some \<lparr>common = drop i ancestors,
                 fork = Obj this # take i ancestors,
                 otherFork = []\<rparr>
         else (case findCommonAncestors_inner this other ancestors otherAncestors i 0 of
                 Some r \<Rightarrow> Some r
               | None \<Rightarrow> findCommonAncestors_outer this other ancestors otherAncestors (Suc i)))
      else None)"
  by pat_completeness auto
termination
  by (relation "measure (\<lambda>(this, other, ancestors, otherAncestors, i). length ancestors - i)") auto

declare findCommonAncestors_outer.simps [simp del]

definition findCommonAncestors :: "nat \<Rightarrow> (nat \<Rightarrow> FabricObject) \<Rightarrow> nat \<Rightarrow> nat \<Rightarrow> bool \<Rightarrow> AncestryComparison option" where
  "findCommonAncestors n h this other strict =
     (if this = other then
        do { ancestors \<leftarrow> getAncestors n h this strict;
             Some \<lparr>common = Obj this # ancestors, fork = [], otherFork = []\<rparr> }
      else
        do { ancestors \<leftarrow> getAncestors n h this strict;
             otherAncestors \<leftarrow> getAncestors n h other strict;
             if length ancestors = 0 \<and> length otherAncestors > 0
                \<and> Obj this = otherAncestors ! (length otherAncestors - 1)
             then Some \<lparr>common = [Obj this],
                        fork = [],
                        otherFork = Obj other # take (length otherAncestors - 1) otherAncestors\<rparr>
             else (case findCommonAncestors_outer this other ancestors otherAncestors 0 of
                     Some r \<Rightarrow> Some r
                   | None \<Rightarrow> Some \<lparr>common = [],
                                    fork = Obj this # ancestors,
                                    otherFork = Obj other # otherAncestors\<rparr>) })"

definition hasCommonAncestors :: "nat \<Rightarrow> (nat \<Rightarrow> FabricObject) \<Rightarrow> nat \<Rightarrow> nat \<Rightarrow> bool \<Rightarrow> bool option" where
  "hasCommonAncestors n h this other strict =
     map_option (\<lambda>commonAncestors. length (common commonAncestors) \<noteq> 0)
       (findCommonAncestors n h this other strict)"

text \<open>\<^verbatim>\<open>Array.prototype.indexOf\<close>: the first position of the element, or \<open>-1\<close>.\<close>

primrec indexOf :: "'a list \<Rightarrow> 'a \<Rightarrow> int" where
  "indexOf [] x = - 1"
| "indexOf (y # ys) x =
     (if y = x then 0 else (let r = indexOf ys x in if r = - 1 then - 1 else r + 1))"





section \<open>Numbers, points and layout data\<close>

text \<open>Arithmetic on JavaScript numbers: an operand that is not a number makes the result so.\<close>

definition lift2 :: "(real \<Rightarrow> real \<Rightarrow> real) \<Rightarrow> num \<Rightarrow> num \<Rightarrow> num" where
  "lift2 f a b =
     (case a of None \<Rightarrow> None | Some x \<Rightarrow> (case b of None \<Rightarrow> None | Some y \<Rightarrow> Some (f x y)))"

definition nadd :: "num \<Rightarrow> num \<Rightarrow> num" where
  "nadd = lift2 (\<lambda>x y. x + y)"

definition nsub :: "num \<Rightarrow> num \<Rightarrow> num" where
  "nsub = lift2 (\<lambda>x y. x - y)"

definition nmul :: "num \<Rightarrow> num \<Rightarrow> num" where
  "nmul = lift2 (\<lambda>x y. x * y)"

definition nmin :: "num \<Rightarrow> num \<Rightarrow> num" where
  "nmin = lift2 min"

definition nmax :: "num \<Rightarrow> num \<Rightarrow> num" where
  "nmax = lift2 max"

definition nneg :: "num \<Rightarrow> num" where
  "nneg a = map_option uminus a"

definition nabs :: "num \<Rightarrow> num" where
  "nabs a = map_option abs a"

definition nhalf :: "num \<Rightarrow> num" where
  "nhalf a = map_option (\<lambda>x. x / 2) a"

text \<open>\<^verbatim>\<open>a || 0\<close> on a number: \<^verbatim>\<open>undefined\<close>, \<^verbatim>\<open>NaN\<close> and \<open>0\<close> all give \<open>0\<close>.\<close>

definition orZero :: "num \<Rightarrow> num" where
  "orZero a = (case a of None \<Rightarrow> Some 0 | Some x \<Rightarrow> Some x)"

text \<open>Truthiness of a number, as in \<^verbatim>\<open>if (object.angle)\<close>.\<close>

definition truthy :: "num \<Rightarrow> bool" where
  "truthy a = (case a of None \<Rightarrow> False | Some x \<Rightarrow> x \<noteq> 0)"

text \<open>
  Modelled from the spec: the \<^verbatim>\<open>Point\<close> class (\<^verbatim>\<open>../point.class\<close>) is not among the
  sources; these are its vector utilities as the group code uses them.
\<close>

definition Point_add :: "point \<Rightarrow> point \<Rightarrow> point" where
  "Point_add p q = (nadd (fst p) (fst q), nadd (snd p) (snd q))"

definition Point_subtract :: "point \<Rightarrow> point \<Rightarrow> point" where
  "Point_subtract p q = (nsub (fst p) (fst q), nsub (snd p) (snd q))"

definition Point_multiply :: "point \<Rightarrow> point \<Rightarrow> point" where
  "Point_multiply p q = (nmul (fst p) (fst q), nmul (snd p) (snd q))"

definition Point_scalarAdd :: "point \<Rightarrow> num \<Rightarrow> point" where
  "Point_scalarAdd p c = (nadd (fst p) c, nadd (snd p) c)"

definition Point_scalarDivide2 :: "point \<Rightarrow> point" where
  "Point_scalarDivide2 p = (nhalf (fst p), nhalf (snd p))"

definition Point_midPointFrom :: "point \<Rightarrow> point \<Rightarrow> point" where
  "Point_midPointFrom p q = (nhalf (nadd (fst p) (fst q)), nhalf (nadd (snd p) (snd q)))"

text \<open>\<^verbatim>\<open>eq\<close> compares with \<^verbatim>\<open>===\<close>, so a coordinate that is not a number equals nothing.\<close>

definition Point_eq :: "point \<Rightarrow> point \<Rightarrow> bool" where
  "Point_eq p q =
     (case (fst p, snd p, fst q, snd q) of
        (Some a, Some b, Some c, Some d) \<Rightarrow> a = c \<and> b = d
      | _ \<Rightarrow> False)"

text \<open>
  \<^verbatim>\<open>LayoutResult\<close>, with every property optional as in the objects the code builds
  (\<^verbatim>\<open>getObjectsBoundingBox(objects) || {}\<close>, \<^verbatim>\<open>Partial<LayoutResult>\<close>).
\<close>

record LayoutResult =
  centerX :: num
  centerY :: num
  correctionX :: num
  correctionY :: num
  resWidth :: num
  resHeight :: num
  offsetX :: num
  offsetY :: num

definition emptyResult :: LayoutResult where
  "emptyResult = \<lparr>centerX = None, centerY = None, correctionX = None, correctionY = None,
     resWidth = None, resHeight = None, offsetX = None, offsetY = None\<rparr>"

text \<open>\<^verbatim>\<open>Object.assign(target, source)\<close> on layout results: the properties of the source win.\<close>

definition assignResult :: "LayoutResult \<Rightarrow> LayoutResult \<Rightarrow> LayoutResult" where
  "assignResult target source =
     (let pick = (\<lambda>a b. case b of None \<Rightarrow> a | Some v \<Rightarrow> Some v) in
      \<lparr>centerX = pick (centerX target) (centerX source),
       centerY = pick (centerY target) (centerY source),
       correctionX = pick (correctionX target) (correctionX source),
       correctionY = pick (correctionY target) (correctionY source),
       resWidth = pick (resWidth target) (resWidth source),
       resHeight = pick (resHeight target) (resHeight source),
       offsetX = pick (offsetX target) (offsetX source),
       offsetY = pick (offsetY target) (offsetY source)\<rparr>)"

text \<open>The constructor options that the group code reads.\<close>

record Options =
  optLeft :: num
  optTop :: num
  optWidth :: num
  optHeight :: num
  optAngle :: num
  optSkewX :: num
  optSkewY :: num
  optLayout :: "string option"
  optClipPath :: "nat option"

datatype LayoutContextType =
  initialization | object_modified | added | removed | layout_change | imperative

text \<open>
  \<^verbatim>\<open>LayoutContext\<close>.  \<open>targets\<close> is the payload of \<^verbatim>\<open>added\<close> and \<^verbatim>\<open>removed\<close>,
  \<open>options\<close> and \<open>objectsRelativeToGroup\<close> that of \<^verbatim>\<open>initialization\<close>, \<open>context'\<close>
  (the property \<^verbatim>\<open>context\<close>) that of \<^verbatim>\<open>imperative\<close>; an absent \<open>path\<close> is the empty list.
\<close>

record LayoutContext =
  type :: LayoutContextType
  targets :: "nat list"
  options :: "Options option"
  objectsRelativeToGroup :: bool
  context' :: "LayoutResult option"
  path :: "nat list"

definition newContext :: "LayoutContextType \<Rightarrow> LayoutContext" where
  "newContext ty = \<lparr>type = ty, targets = [], options = None, objectsRelativeToGroup = False,
     context' = None, path = []\<rparr>"

text \<open>The events fired by the group code, in order.\<close>

datatype Event =
  FireAdded nat nat
| FireRemoved nat nat
| FireLayout nat LayoutContext LayoutResult "point option"

record State =
  heap :: "nat \<Rightarrow> FabricObject"
  canvases :: "nat \<Rightarrow> StaticCanvas"
  events :: "Event list"

text \<open>\<^verbatim>\<open>_getTransformedDimensions(options)\<close>: the overriding dimensions, when given.\<close>

record DimOptions =
  dimWidth :: num
  dimHeight :: num
  dimStrokeWidth :: "num option"

text \<open>
  The base drawable object and the transform utilities (\<^verbatim>\<open>./object.class\<close>, \<^verbatim>\<open>../util\<close>)
  are not among the sources.  Every definition below takes them as the parameter \<open>B\<close>; the
  object index lets them depend on properties the group code never writes (origin, stroke
  width).  They read and write geometry only.
\<close>

record Base =
  calcTransformMatrix :: "State \<Rightarrow> nat \<Rightarrow> TMat"
  calcOwnMatrix :: "nat \<Rightarrow> Geometry \<Rightarrow> TMat"
  getRelativeCenterPoint :: "nat \<Rightarrow> Geometry \<Rightarrow> point"
  getCenterPoint :: "State \<Rightarrow> nat \<Rightarrow> point"
  getTransformedDimensions :: "nat \<Rightarrow> Geometry \<Rightarrow> DimOptions option \<Rightarrow> point"
  resolveOriginX :: "nat \<Rightarrow> num"
  resolveOriginY :: "nat \<Rightarrow> num"
  setPositionByOrigin :: "nat \<Rightarrow> Geometry \<Rightarrow> point \<Rightarrow> Geometry"
  applyTransformToObject :: "nat \<Rightarrow> Geometry \<Rightarrow> TMat \<Rightarrow> Geometry"
  invertTransform :: "TMat \<Rightarrow> TMat"
  multiplyTransformMatrices :: "TMat \<Rightarrow> TMat \<Rightarrow> TMat"
  transformPoint :: "point \<Rightarrow> TMat \<Rightarrow> bool \<Rightarrow> point"
  degreesToRadians :: "num \<Rightarrow> num"
  sin' :: "num \<Rightarrow> num"
  cos' :: "num \<Rightarrow> num"

text \<open>Updating one object of the heap.\<close>

definition updObject :: "State \<Rightarrow> nat \<Rightarrow> (FabricObject \<Rightarrow> FabricObject) \<Rightarrow> State" where
  "updObject s x f = s\<lparr>heap := (heap s)(x := f (heap s x))\<rparr>"

definition updGeom :: "State \<Rightarrow> nat \<Rightarrow> (Geometry \<Rightarrow> Geometry) \<Rightarrow> State" where
  "updGeom s x f = updObject s x (\<lambda>ob. ob\<lparr>geom := f (geom ob)\<rparr>)"

definition fire :: "State \<Rightarrow> Event \<Rightarrow> State" where
  "fire s e = s\<lparr>events := events s @ [e]\<rparr>"

text \<open>A loop over a list whose body may not return.\<close>

primrec forEach :: "'a list \<Rightarrow> ('a \<Rightarrow> 's \<Rightarrow> 's option) \<Rightarrow> 's \<Rightarrow> 's option" where
  "forEach [] f s = Some s"
| "forEach (x # xs) f s = (case f x s of None \<Rightarrow> None | Some s' \<Rightarrow> forEach xs f s')"

section \<open>Group: bounding boxes and layout strategies\<close>

text \<open>
  The \<^verbatim>\<open>forEach\<close> of \<^verbatim>\<open>getObjectsBoundingBox\<close>: \<open>i\<close> is the index of the callback and
  the pair holds the variables \<^verbatim>\<open>min\<close> and \<^verbatim>\<open>max\<close>.
\<close>

primrec getObjectsBoundingBox_forEach ::
  "Base \<Rightarrow> State \<Rightarrow> nat list \<Rightarrow> nat \<Rightarrow> point \<times> point \<Rightarrow> point \<times> point" where
  "getObjectsBoundingBox_forEach B s [] i mm = mm"
| "getObjectsBoundingBox_forEach B s (object # rest) i mm =
     (let g = geom (heap s object);
          objCenter = getRelativeCenterPoint B object g;
          sizeVector0 = Point_scalarDivide2 (getTransformedDimensions B object g None);
          sizeVector =
            (if truthy (angle g) then
               (let rad = degreesToRadians B (angle g);
                    sinValue = nabs (sin' B rad);
                    cosValue = nabs (cos' B rad);
                    rx = nadd (nmul (fst sizeVector0) cosValue) (nmul (snd sizeVector0) sinValue);
                    ry = nadd (nmul (fst sizeVector0) sinValue) (nmul (snd sizeVector0) cosValue)
                in (rx, ry))
             else sizeVector0);
          a = Point_subtract objCenter sizeVector;
          b = Point_add objCenter sizeVector;
          mm' =
            (if i = 0 then
               ((nmin (fst a) (fst b), nmin (snd a) (snd b)),
                (nmax (fst a) (fst b), nmax (snd a) (snd b)))
             else
               ((nmin (nmin (fst (fst mm)) (fst a)) (fst b), nmin (nmin (snd (fst mm)) (snd a)) (snd b)),
                (nmax (nmax (fst (snd mm)) (fst a)) (fst b), nmax (nmax (snd (snd mm)) (snd a)) (snd b))))
      in getObjectsBoundingBox_forEach B s rest (Suc i) mm')"

definition getObjectsBoundingBox :: "Base \<Rightarrow> State \<Rightarrow> nat \<Rightarrow> nat list \<Rightarrow> bool \<Rightarrow> LayoutResult option" where
  "getObjectsBoundingBox B s this objs ignoreOffset =
     (if length objs = 0 then None
      else
        (let mm = getObjectsBoundingBox_forEach B s objs 0 ((None, None), (None, None));
             min = fst mm;
             max = snd mm;
             size = Point_subtract max min;
             relativeCenter = (if ignoreOffset then Point_scalarDivide2 size else Point_midPointFrom min max);
             offset = transformPoint B min (calcOwnMatrix B this (geom (heap s this))) False;
             center = transformPoint B relativeCenter (calcOwnMatrix B this (geom (heap s this))) False
         in Some \<lparr>centerX = fst center, centerY = snd center, correctionX = None, correctionY = None,
                  resWidth = fst size, resHeight = snd size, offsetX = fst offset, offsetY = snd offset\<rparr>))"

definition noOptions :: Options where
  "noOptions = \<lparr>optLeft = None, optTop = None, optWidth = None, optHeight = None, optAngle = None,
     optSkewX = None, optSkewY = None, optLayout = None, optClipPath = None\<rparr>"

definition prepareInitialBoundingBox ::
  "Base \<Rightarrow> State \<Rightarrow> nat \<Rightarrow> string \<Rightarrow> nat list \<Rightarrow> LayoutContext \<Rightarrow> LayoutResult option" where
  "prepareInitialBoundingBox B s this layoutDirective objs ctx =
     (let opts = (case options ctx of None \<Rightarrow> noOptions | Some v \<Rightarrow> v);
          hasX = (optLeft opts \<noteq> None);
          hasY = (optTop opts \<noteq> None);
          hasWidth = (optWidth opts \<noteq> None);
          hasHeight = (optHeight opts \<noteq> None)
      in
        if (hasX \<and> hasY \<and> hasWidth \<and> hasHeight \<and> objectsRelativeToGroup ctx) \<or> length objs = 0
        then None
        else
          (let g = geom (heap s this);
               bbox = (case getObjectsBoundingBox B s this objs False of None \<Rightarrow> emptyResult | Some v \<Rightarrow> v);
               w = (if hasWidth then width g else orZero (resWidth bbox));
               h = (if hasHeight then height g else orZero (resHeight bbox));
               calculatedCenter = (orZero (centerX bbox), orZero (centerY bbox));
               origin = (resolveOriginX B this, resolveOriginY B this);
               size = (w, h);
               strokeWidthVector = getTransformedDimensions B this g
                 (Some \<lparr>dimWidth = Some 0, dimHeight = Some 0, dimStrokeWidth = None\<rparr>);
               sizeAfter = getTransformedDimensions B this g
                 (Some \<lparr>dimWidth = w, dimHeight = h, dimStrokeWidth = Some (Some 0)\<rparr>);
               bboxSizeAfter = getTransformedDimensions B this g
                 (Some \<lparr>dimWidth = resWidth bbox, dimHeight = resHeight bbox, dimStrokeWidth = Some (Some 0)\<rparr>);
               rotationCorrection = (Some 0, Some 0);
               originT = Point_scalarAdd origin (Some (1 / 2));
               originCorrection = Point_multiply sizeAfter originT;
               centerCorrection =
                 (if hasWidth then nhalf (fst bboxSizeAfter) else fst originCorrection,
                  if hasHeight then nhalf (snd bboxSizeAfter) else snd originCorrection);
               center =
                 (if hasX then nsub (left g) (nmul (nadd (fst sizeAfter) (fst strokeWidthVector)) (fst origin))
                  else nsub (fst calculatedCenter) (fst centerCorrection),
                  if hasY then nsub (top' g) (nmul (nadd (snd sizeAfter) (snd strokeWidthVector)) (snd origin))
                  else nsub (snd calculatedCenter) (snd centerCorrection));
               offsetCorrection = Point_add
                 (if hasX then
                    nadd (nsub (fst center) (fst calculatedCenter))
                         (nmul (fst bboxSizeAfter) (Some (if hasWidth then 1 / 2 else 0)))
                  else
                    nneg (if hasWidth then nmul (nsub (fst sizeAfter) (fst strokeWidthVector)) (Some (1 / 2))
                          else nmul (fst sizeAfter) (fst originT)),
                  if hasY then
                    nadd (nsub (snd center) (snd calculatedCenter))
                         (nmul (snd bboxSizeAfter) (Some (if hasHeight then 1 / 2 else 0)))
                  else
                    nneg (if hasHeight then nmul (nsub (snd sizeAfter) (snd strokeWidthVector)) (Some (1 / 2))
                          else nmul (snd sizeAfter) (snd originT)))
                 rotationCorrection;
               correction = Point_add
                 (if hasWidth then nhalf (nneg (fst sizeAfter)) else Some 0,
                  if hasHeight then nhalf (nneg (snd sizeAfter)) else Some 0)
                 offsetCorrection
           in Some \<lparr>centerX = fst center, centerY = snd center,
                    correctionX = fst correction, correctionY = snd correction,
                    resWidth = fst size, resHeight = snd size, offsetX = None, offsetY = None\<rparr>))"

definition prepareBoundingBox ::
  "Base \<Rightarrow> State \<Rightarrow> nat \<Rightarrow> string \<Rightarrow> nat list \<Rightarrow> LayoutContext \<Rightarrow> LayoutResult option" where
  "prepareBoundingBox B s this layoutDirective objs ctx =
     (if type ctx = initialization then prepareInitialBoundingBox B s this layoutDirective objs ctx
      else if type ctx = imperative \<and> context' ctx \<noteq> None then
        Some (assignResult
               (case getObjectsBoundingBox B s this objs False of None \<Rightarrow> emptyResult | Some v \<Rightarrow> v)
               (case context' ctx of None \<Rightarrow> emptyResult | Some v \<Rightarrow> v))
      else getObjectsBoundingBox B s this objs False)"

definition getLayoutStrategyResult ::
  "Base \<Rightarrow> State \<Rightarrow> nat \<Rightarrow> string \<Rightarrow> nat list \<Rightarrow> LayoutContext \<Rightarrow> LayoutResult option" where
  "getLayoutStrategyResult B s this layoutDirective objs ctx =
     (if layoutDirective = ''fit-content-lazy''
         \<and> type ctx = added \<and> length objs > length (targets ctx) then
        (let addedObjects = targets ctx @ [this]
         in prepareBoundingBox B s this layoutDirective addedObjects ctx)
      else if layoutDirective = ''fit-content'' \<or> layoutDirective = ''fit-content-lazy''
         \<or> (layoutDirective = ''fixed'' \<and> (type ctx = initialization \<or> type ctx = imperative)) then
        prepareBoundingBox B s this layoutDirective objs ctx
      else if layoutDirective = ''clip-path'' \<and> clipPath (heap s this) \<noteq> None then
        (case clipPath (heap s this) of
           None \<Rightarrow> None
         | Some cp \<Rightarrow>
             (let clipPathSizeAfter = getTransformedDimensions B cp (geom (heap s cp)) None in
              if absolutePositioned (heap s cp)
                 \<and> (type ctx = initialization \<or> type ctx = layout_change) then
                (let clipPathCenter0 = getCenterPoint B s cp;
                     clipPathCenter =
                       (case group (heap s this) of
                          None \<Rightarrow> clipPathCenter0
                        | Some g \<Rightarrow>
                            (let inv = invertTransform B (calcTransformMatrix B s g)
                             in transformPoint B clipPathCenter0 inv False))
                 in Some (emptyResult\<lparr>centerX := fst clipPathCenter, centerY := snd clipPathCenter,
                            resWidth := fst clipPathSizeAfter, resHeight := snd clipPathSizeAfter\<rparr>))
              else if \<not> absolutePositioned (heap s cp) then
                (let clipPathRelativeCenter = getRelativeCenterPoint B cp (geom (heap s cp));
                     clipPathCenter = transformPoint B clipPathRelativeCenter
                                        (calcOwnMatrix B this (geom (heap s this))) True
                 in
                   if type ctx = initialization \<or> type ctx = layout_change then
                     (let bbox = (case prepareBoundingBox B s this layoutDirective objs ctx of
                                    None \<Rightarrow> emptyResult | Some v \<Rightarrow> v);
                          center = (orZero (centerX bbox), orZero (centerY bbox))
                      in Some (emptyResult\<lparr>centerX := nadd (fst center) (fst clipPathCenter),
                                 centerY := nadd (snd center) (snd clipPathCenter),
                                 correctionX := nsub (correctionX bbox) (fst clipPathCenter),
                                 correctionY := nsub (correctionY bbox) (snd clipPathCenter),
                                 resWidth := width (geom (heap s cp)),
                                 resHeight := height (geom (heap s cp))\<rparr>))
                   else
                     (let center = getRelativeCenterPoint B this (geom (heap s this))
                      in Some (emptyResult\<lparr>centerX := nadd (fst center) (fst clipPathCenter),
                                 centerY := nadd (snd center) (snd clipPathCenter),
                                 resWidth := fst clipPathSizeAfter,
                                 resHeight := snd clipPathSizeAfter\<rparr>)))
              else None))
      else if layoutDirective = ''svg'' \<and> type ctx = initialization then
        (let bbox = (case getObjectsBoundingBox B s this objs True of None \<Rightarrow> emptyResult | Some v \<Rightarrow> v)
         in Some (bbox\<lparr>correctionX := orZero (nneg (offsetX bbox)),
                    correctionY := orZero (nneg (offsetY bbox))\<rparr>))
      else None)"

section \<open>Group: applying a layout\<close>

definition adjustObjectPosition :: "State \<Rightarrow> nat \<Rightarrow> point \<Rightarrow> State" where
  "adjustObjectPosition s object diff =
     updGeom s object (\<lambda>g. g\<lparr>left := nadd (left g) (fst diff), top' := nadd (top' g) (snd diff)\<rparr>)"

text \<open>\<^verbatim>\<open>this.set(initialTransform)\<close>, when there is one.\<close>

definition setInitialTransform :: "State \<Rightarrow> nat \<Rightarrow> (num \<times> num \<times> num) option \<Rightarrow> State" where
  "setInitialTransform s this initialTransform =
     (case initialTransform of
        None \<Rightarrow> s
      | Some (a, sx, sy) \<Rightarrow> updGeom s this (\<lambda>g. g\<lparr>angle := a, skewX := sx, skewY := sy\<rparr>))"

text \<open>
  The branch \<^verbatim>\<open>if (result)\<close> of \<^verbatim>\<open>_applyLayoutStrategy\<close>: the new state and \<^verbatim>\<open>diff\<close>.
  \<^verbatim>\<open>setCoords\<close> refreshes a cache of corner coordinates that the state does not hold.
\<close>

definition applyLayoutResult ::
  "Base \<Rightarrow> State \<Rightarrow> nat \<Rightarrow> LayoutContext \<Rightarrow> point \<Rightarrow> (num \<times> num \<times> num) option \<Rightarrow> LayoutResult
     \<Rightarrow> State \<times> point" where
  "applyLayoutResult B s this ctx center initialTransform result =
     (let isFirstLayout = (type ctx = initialization);
          newCenter = (centerX result, centerY result);
          vector = Point_add (Point_subtract center newCenter)
                     (orZero (correctionX result), orZero (correctionY result));
          diff = transformPoint B vector (invertTransform B (calcOwnMatrix B this (geom (heap s this)))) True;
          s1 = updGeom s this (\<lambda>g. g\<lparr>width := resWidth result, height := resHeight result\<rparr>);
          s2 = (if \<not> objectsRelativeToGroup ctx
                then fold (\<lambda>object st. adjustObjectPosition st object diff) (objects (heap s1 this)) s1
                else s1);
          s3 = (case clipPath (heap s2 this) of
                  None \<Rightarrow> s2
                | Some cp \<Rightarrow>
                    if \<not> isFirstLayout \<and> layout (heap s2 this) \<noteq> ''clip-path''
                       \<and> \<not> absolutePositioned (heap s2 cp)
                    then adjustObjectPosition s2 cp diff else s2);
          s4 = (if \<not> Point_eq newCenter center \<or> initialTransform \<noteq> None
                then setInitialTransform
                       (updGeom s3 this (\<lambda>g. setPositionByOrigin B this g newCenter))
                       this initialTransform
                else s3)
      in (s4, diff))"

text \<open>
  \<^verbatim>\<open>_applyLayoutStrategy\<close>.  It calls itself on the parent group, which does not end on a
  cyclic chain of groups; the first argument bounds the depth of the recursion.
  \<^verbatim>\<open>onLayout\<close> is the empty hook.
\<close>

fun applyLayoutStrategy :: "nat \<Rightarrow> Base \<Rightarrow> State \<Rightarrow> nat \<Rightarrow> LayoutContext \<Rightarrow> State option" where
  "applyLayoutStrategy 0 B s this ctx = None"
| "applyLayoutStrategy (Suc n) B s this ctx =
     (let isFirstLayout = (type ctx = initialization) in
      if \<not> isFirstLayout \<and> \<not> firstLayoutDone (heap s this) then Some s
      else
        (let opts = (if isFirstLayout then options ctx else None);
             initialTransform =
               map_option (\<lambda>v. (orZero (optAngle v), orZero (optSkewX v), orZero (optSkewY v))) opts;
             center = getRelativeCenterPoint B this (geom (heap s this));
             result = getLayoutStrategyResult B s this (layout (heap s this)) (objects (heap s this)) ctx;
             outcome =
               (case result of
                  Some r \<Rightarrow>
                    (let sd = applyLayoutResult B s this ctx center initialTransform r
                     in Some (fst sd, r, Some (snd sd)))
                | None \<Rightarrow>
                    if isFirstLayout then
                      Some (setInitialTransform s this initialTransform,
                            emptyResult\<lparr>centerX := fst center, centerY := snd center,
                              resWidth := width (geom (heap s this)),
                              resHeight := height (geom (heap s this))\<rparr>,
                            None)
                    else None)
         in
           (case outcome of
              None \<Rightarrow> Some s
            | Some (s1, r, diff) \<Rightarrow>
                (let s2 = updObject s1 this (\<lambda>ob. ob\<lparr>firstLayoutDone := True\<rparr>);
                     s3 = fire s2 (FireLayout this ctx r diff)
                 in
                   (case group (heap s3 this) of
                      None \<Rightarrow> Some s3
                    | Some g \<Rightarrow> applyLayoutStrategy n B s3 g (ctx\<lparr>path := path ctx @ [this]\<rparr>))))))"

declare applyLayoutStrategy.simps [simp del]

section \<open>Group: property setters and subscriptions\<close>

text \<open>
  \<^verbatim>\<open>_set('canvas', value)\<close>: the group passes a changed canvas on to its children, which
  do the same.  The first argument bounds the depth of the recursion.  An object that is
  not a group has no children.  The other keys that the group code sets on objects
  (\<^verbatim>\<open>group\<close>, \<^verbatim>\<open>dirty\<close>, dimensions, position) reach the setter of the base object, which
  is taken to store the value.
\<close>

fun set_canvas :: "nat \<Rightarrow> State \<Rightarrow> nat \<Rightarrow> nat option \<Rightarrow> State option" where
  "set_canvas 0 s this v = None"
| "set_canvas (Suc n) s this v =
     (let prev = canvas (heap s this);
          s1 = updObject s this (\<lambda>ob. ob\<lparr>canvas := v\<rparr>)
      in if prev \<noteq> v
         then forEach (objects (heap s1 this)) (\<lambda>object st. set_canvas n st object v) s1
         else Some s1)"

declare set_canvas.simps [simp del]

text \<open>\<^verbatim>\<open>_set('layout', value)\<close>\<close>

definition set_layout :: "nat \<Rightarrow> Base \<Rightarrow> State \<Rightarrow> nat \<Rightarrow> string \<Rightarrow> State option" where
  "set_layout n B s this v =
     (let prev = layout (heap s this);
          s1 = updObject s this (\<lambda>ob. ob\<lparr>layout := v\<rparr>)
      in if prev \<noteq> v then applyLayoutStrategy n B s1 this (newContext layout_change) else Some s1)"

text \<open>
  Modelled from the spec: the event emitter (\<^verbatim>\<open>on\<close>, \<^verbatim>\<open>off\<close>) is not among the sources.
  \<open>listeners\<close> holds the groups whose four handlers are subscribed to the object;
  \<^verbatim>\<open>_watchObject\<close> detaches before it attaches, so there is at most one subscription.
\<close>

definition watchObject :: "State \<Rightarrow> nat \<Rightarrow> bool \<Rightarrow> nat \<Rightarrow> State" where
  "watchObject s this watch object =
     updObject s object
       (\<lambda>ob. ob\<lparr>listeners := (if watch then removeAll this (listeners ob) @ [this]
                               else removeAll this (listeners ob))\<rparr>)"

text \<open>\<^verbatim>\<open>_set('interactive', value)\<close>\<close>

definition set_interactive :: "State \<Rightarrow> nat \<Rightarrow> bool \<Rightarrow> State" where
  "set_interactive s this v =
     (let s1 = updObject s this (\<lambda>ob. ob\<lparr>interactive := v\<rparr>)
      in fold (\<lambda>object st. watchObject st this v object) (objects (heap s1 this)) s1)"

text \<open>\<^verbatim>\<open>array.splice(index, 1)\<close> for an index that \<^verbatim>\<open>indexOf\<close> found.\<close>

definition splice1 :: "'a list \<Rightarrow> int \<Rightarrow> 'a list" where
  "splice1 xs index = take (nat index) xs @ drop (Suc (nat index)) xs"

text \<open>\<^verbatim>\<open>__objectSelectionMonitor(selected, opt)\<close>, with \<open>object = opt.target\<close>.\<close>

definition objectSelectionMonitor :: "State \<Rightarrow> nat \<Rightarrow> bool \<Rightarrow> nat \<Rightarrow> State" where
  "objectSelectionMonitor s this selected object =
     (if selected then
        updObject s this (\<lambda>ob. ob\<lparr>activeObjects := activeObjects ob @ [object], dirty := True\<rparr>)
      else if length (activeObjects (heap s this)) > 0 then
        (let index = indexOf (activeObjects (heap s this)) object
         in if index > - 1
            then updObject s this
                   (\<lambda>ob. ob\<lparr>activeObjects := splice1 (activeObjects ob) index, dirty := True\<rparr>)
            else s)
      else s)"

text \<open>\<^verbatim>\<open>__objectMonitor\<close>\<close>

definition objectMonitor :: "nat \<Rightarrow> Base \<Rightarrow> State \<Rightarrow> nat \<Rightarrow> State option" where
  "objectMonitor n B s this =
     do { s1 \<leftarrow> applyLayoutStrategy n B s this (newContext object_modified);
          Some (updObject s1 this (\<lambda>ob. ob\<lparr>dirty := True\<rparr>)) }"

text \<open>\<^verbatim>\<open>triggerLayout(context)\<close>: the partial result and the layout name of the argument.\<close>

definition triggerLayout :: "nat \<Rightarrow> Base \<Rightarrow> State \<Rightarrow> nat \<Rightarrow> LayoutResult option \<Rightarrow> string option \<Rightarrow> State option" where
  "triggerLayout n B s this c newLayout =
     (let s1 = (case newLayout of
                  None \<Rightarrow> s
                | Some v \<Rightarrow> if c \<noteq> None \<and> v \<noteq> [] then updObject s this (\<lambda>ob. ob\<lparr>layout := v\<rparr>) else s)
      in applyLayoutStrategy n B s1 this ((newContext imperative)\<lparr>context' := c\<rparr>))"

section \<open>Group: membership\<close>

definition canEnterGroup :: "nat \<Rightarrow> (nat \<Rightarrow> FabricObject) \<Rightarrow> nat \<Rightarrow> nat \<Rightarrow> bool option" where
  "canEnterGroup n h this object =
     (if object = this then Some False
      else
        do { d \<leftarrow> isDescendantOf n h this (Obj object);
             if d then Some False
             else if indexOf (objects (h this)) object \<noteq> - 1 then Some False
             else Some True })"

text \<open>
  The \<^verbatim>\<open>filter\<close> of \<^verbatim>\<open>_filterObjectsBeforeEnteringGroup\<close>: \<open>array\<close> is the whole argument
  and \<open>index\<close> the position of the element at hand.
\<close>

primrec filterObjects_loop ::
  "nat \<Rightarrow> (nat \<Rightarrow> FabricObject) \<Rightarrow> nat \<Rightarrow> nat list \<Rightarrow> int \<Rightarrow> nat list \<Rightarrow> nat list option" where
  "filterObjects_loop n h this array index [] = Some []"
| "filterObjects_loop n h this array index (object # rest) =
     do { c \<leftarrow> canEnterGroup n h this object;
          r \<leftarrow> filterObjects_loop n h this array (index + 1) rest;
          Some (if c \<and> indexOf array object = index then object # r else r) }"

definition filterObjectsBeforeEnteringGroup :: "nat \<Rightarrow> (nat \<Rightarrow> FabricObject) \<Rightarrow> nat \<Rightarrow> nat list \<Rightarrow> nat list option" where
  "filterObjectsBeforeEnteringGroup n h this objs = filterObjects_loop n h this objs 0 objs"

text \<open>\<^verbatim>\<open>_exitGroup\<close>\<close>

definition exitGroup' :: "Base \<Rightarrow> State \<Rightarrow> nat \<Rightarrow> nat \<Rightarrow> bool \<Rightarrow> State" where
  "exitGroup' B s this object removeParentTransform =
     (let s1 = updObject s object (\<lambda>ob. ob\<lparr>group := None\<rparr>);
          s2 = (if \<not> removeParentTransform
                then updGeom s1 object
                       (\<lambda>g. applyTransformToObject B object g
                               (multiplyTransformMatrices B (calcTransformMatrix B s1 this)
                                                            (calcTransformMatrix B s1 object)))
                else s1);
          s3 = watchObject s2 this False object;
          index = (if length (activeObjects (heap s3 this)) > 0
                   then indexOf (activeObjects (heap s3 this)) object else - 1)
      in if index > - 1
         then updObject s3 this (\<lambda>ob. ob\<lparr>activeObjects := splice1 (activeObjects ob) index\<rparr>)
         else s3)"

definition exitGroup :: "nat \<Rightarrow> Base \<Rightarrow> State \<Rightarrow> nat \<Rightarrow> nat \<Rightarrow> bool \<Rightarrow> State option" where
  "exitGroup n B s this object removeParentTransform =
     set_canvas n (exitGroup' B s this object removeParentTransform) object None"

text \<open>\<^verbatim>\<open>_onObjectRemoved\<close>\<close>

definition onObjectRemoved :: "nat \<Rightarrow> Base \<Rightarrow> State \<Rightarrow> nat \<Rightarrow> nat \<Rightarrow> bool \<Rightarrow> State option" where
  "onObjectRemoved n B s this object removeParentTransform =
     do { s1 \<leftarrow> exitGroup n B s this object removeParentTransform;
          Some (fire s1 (FireRemoved object this)) }"

text \<open>\<^verbatim>\<open>_onAfterObjectsChange\<close>\<close>

definition onAfterObjectsChange :: "nat \<Rightarrow> Base \<Rightarrow> State \<Rightarrow> nat \<Rightarrow> LayoutContextType \<Rightarrow> nat list \<Rightarrow> State option" where
  "onAfterObjectsChange n B s this ty tgts =
     do { s1 \<leftarrow> applyLayoutStrategy n B s this ((newContext ty)\<lparr>targets := tgts\<rparr>);
          Some (updObject s1 this (\<lambda>ob. ob\<lparr>dirty := True\<rparr>)) }"

text \<open>
  Modelled from the spec: the collection mixin (\<^verbatim>\<open>../mixins/collection.mixin\<close>) is not among
  the sources.  Its \<^verbatim>\<open>remove\<close> takes each listed object that is in \<^verbatim>\<open>_objects\<close> out of
  the array, calls the callback on it, and returns the objects it removed.
\<close>

primrec collection_remove ::
  "nat \<Rightarrow> (nat \<Rightarrow> State \<Rightarrow> State option) \<Rightarrow> nat list \<Rightarrow> nat list \<Rightarrow> State \<Rightarrow> (nat list \<times> State) option" where
  "collection_remove this callback [] removed' s = Some (removed', s)"
| "collection_remove this callback (object # rest) removed' s =
     (let index = indexOf (objects (heap s this)) object
      in if index \<noteq> - 1 then
           do { s2 \<leftarrow> callback object
                       (updObject s this (\<lambda>ob. ob\<lparr>objects := splice1 (objects ob) index\<rparr>));
                collection_remove this callback rest (removed' @ [object]) s2 }
         else collection_remove this callback rest removed' s)"

text \<open>\<^verbatim>\<open>remove(...objects)\<close>: the removed objects and the new state.\<close>

definition remove' :: "nat \<Rightarrow> Base \<Rightarrow> State \<Rightarrow> nat \<Rightarrow> nat list \<Rightarrow> (nat list \<times> State) option" where
  "remove' n B s this objs =
     do { rs \<leftarrow> collection_remove this (\<lambda>object st. onObjectRemoved n B st this object False) objs [] s;
          s2 \<leftarrow> onAfterObjectsChange n B (snd rs) this removed (fst rs);
          Some (fst rs, s2) }"

definition removeAll' :: "nat \<Rightarrow> Base \<Rightarrow> State \<Rightarrow> nat \<Rightarrow> (nat list \<times> State) option" where
  "removeAll' n B s this =
     (let s1 = updObject s this (\<lambda>ob. ob\<lparr>activeObjects := []\<rparr>)
      in remove' n B s1 this (objects (heap s1 this)))"

text \<open>\<^verbatim>\<open>_enterGroup\<close>\<close>

definition enterGroup' :: "nat \<Rightarrow> Base \<Rightarrow> State \<Rightarrow> nat \<Rightarrow> nat \<Rightarrow> bool \<Rightarrow> State option" where
  "enterGroup' n B s this object removeParentTransform =
     (let s1 = (if removeParentTransform
                then updGeom s object
                       (\<lambda>g. applyTransformToObject B object g
                               (multiplyTransformMatrices B (invertTransform B (calcTransformMatrix B s this))
                                                            (calcTransformMatrix B s object)))
                else s);
          s2 = updObject s1 object (\<lambda>ob. ob\<lparr>group := Some this\<rparr>)
      in
        do { s3 \<leftarrow> set_canvas n s2 object (canvas (heap s2 this));
             let s4 = (if interactive (heap s3 this) then watchObject s3 this True object else s3);
             let act = (case canvas (heap s4 this) of
                          None \<Rightarrow> None
                        | Some c \<Rightarrow> activeObject (canvases s4 c));
             let pushed = updObject s4 this (\<lambda>ob. ob\<lparr>activeObjects := activeObjects ob @ [object]\<rparr>);
             (case act of
                None \<Rightarrow> Some s4
              | Some a \<Rightarrow>
                  if a = object then Some pushed
                  else do { d \<leftarrow> isDescendantOf n (heap s4) object (Obj a);
                            Some (if d then pushed else s4) }) })"

definition enterGroup :: "nat \<Rightarrow> Base \<Rightarrow> State \<Rightarrow> nat \<Rightarrow> nat \<Rightarrow> bool \<Rightarrow> State option" where
  "enterGroup n B s this object removeParentTransform =
     do { s1 \<leftarrow> (case group (heap s object) of
                   None \<Rightarrow> Some s
                 | Some g \<Rightarrow> map_option snd (remove' n B s g [object]));
          enterGroup' n B s1 this object removeParentTransform }"

text \<open>\<^verbatim>\<open>_onObjectAdded\<close>\<close>

definition onObjectAdded :: "nat \<Rightarrow> Base \<Rightarrow> State \<Rightarrow> nat \<Rightarrow> nat \<Rightarrow> State option" where
  "onObjectAdded n B s this object =
     do { s1 \<leftarrow> enterGroup n B s this object True;
          Some (fire s1 (FireAdded object this)) }"

text \<open>
  Modelled from the spec: \<^verbatim>\<open>add\<close> and \<^verbatim>\<open>insertAt\<close> of the collection mixin, which is not
  among the sources.  The objects are appended to \<^verbatim>\<open>_objects\<close>, or inserted at the index,
  and the callback is then called on each of them in order.
\<close>

definition collection_add ::
  "nat \<Rightarrow> nat list \<Rightarrow> (nat \<Rightarrow> State \<Rightarrow> State option) \<Rightarrow> State \<Rightarrow> State option" where
  "collection_add this objs callback s =
     forEach objs callback (updObject s this (\<lambda>ob. ob\<lparr>objects := objects ob @ objs\<rparr>))"

definition collection_insertAt ::
  "nat \<Rightarrow> nat list \<Rightarrow> nat \<Rightarrow> (nat \<Rightarrow> State \<Rightarrow> State option) \<Rightarrow> State \<Rightarrow> State option" where
  "collection_insertAt this objs index callback s =
     forEach objs callback
       (updObject s this (\<lambda>ob. ob\<lparr>objects := take index (objects ob) @ objs @ drop index (objects ob)\<rparr>))"

definition add :: "nat \<Rightarrow> Base \<Rightarrow> State \<Rightarrow> nat \<Rightarrow> nat list \<Rightarrow> State option" where
  "add n B s this objs =
     do { allowedObjects \<leftarrow> filterObjectsBeforeEnteringGroup n (heap s) this objs;
          s1 \<leftarrow> collection_add this allowedObjects (\<lambda>object st. onObjectAdded n B st this object) s;
          onAfterObjectsChange n B s1 this added allowedObjects }"

definition insertAt :: "nat \<Rightarrow> Base \<Rightarrow> State \<Rightarrow> nat \<Rightarrow> nat list \<Rightarrow> nat \<Rightarrow> State option" where
  "insertAt n B s this objs index =
     do { allowedObjects \<leftarrow> filterObjectsBeforeEnteringGroup n (heap s) this objs;
          s1 \<leftarrow> collection_insertAt this allowedObjects index
                  (\<lambda>object st. onObjectAdded n B st this object) s;
          onAfterObjectsChange n B s1 this added allowedObjects }"

section \<open>Group: constructor\<close>

text \<open>\<^verbatim>\<open>this.set({...options})\<close> for the options that the state holds.\<close>

definition setOptions :: "nat \<Rightarrow> Base \<Rightarrow> State \<Rightarrow> nat \<Rightarrow> Options \<Rightarrow> State option" where
  "setOptions n B s this v =
     (let pick = (\<lambda>a b. case b of None \<Rightarrow> a | Some c \<Rightarrow> Some c);
          s1 = updGeom s this
                 (\<lambda>g. g\<lparr>left := pick (left g) (optLeft v), top' := pick (top' g) (optTop v),
                         width := pick (width g) (optWidth v), height := pick (height g) (optHeight v)\<rparr>);
          s2 = (case optClipPath v of
                  None \<Rightarrow> s1
                | Some cp \<Rightarrow> updObject s1 this (\<lambda>ob. ob\<lparr>clipPath := Some cp\<rparr>))
      in (case optLayout v of None \<Rightarrow> Some s2 | Some l \<Rightarrow> set_layout n B s2 this l))"

text \<open>
  \<^verbatim>\<open>new Group(objects, options, objectsRelativeToGroup)\<close>, where \<open>this\<close> is the index of
  the object that \<^verbatim>\<open>super()\<close> made; the class fields are then set to their defaults.
\<close>

definition Group_constructor ::
  "nat \<Rightarrow> Base \<Rightarrow> State \<Rightarrow> nat \<Rightarrow> nat list \<Rightarrow> Options option \<Rightarrow> bool \<Rightarrow> State option" where
  "Group_constructor n B s this objs opts relativeToGroup =
     (let s0 = updObject s this
                 (\<lambda>ob. ob\<lparr>layout := ''fit-content'', subTargetCheck := False, interactive := False,
                          activeObjects := [], firstLayoutDone := False\<rparr>)
      in
        do { s1 \<leftarrow> (case opts of None \<Rightarrow> Some s0 | Some v \<Rightarrow> setOptions n B s0 this v);
             let s2 = updGeom s1 this (\<lambda>g. g\<lparr>angle := Some 0, skewX := Some 0, skewY := Some 0\<rparr>);
             let s3 = updObject s2 this (\<lambda>ob. ob\<lparr>objects := objs\<rparr>);
             s4 \<leftarrow> forEach (objects (heap s3 this)) (\<lambda>object st. enterGroup n B st this object False) s3;
             applyLayoutStrategy n B s4 this
               ((newContext initialization)\<lparr>options := opts, objectsRelativeToGroup := relativeToGroup\<rparr>) })"

section \<open>The membership invariant\<close>

text \<open>
  An object is in the child sequence of a group exactly when its \<^verbatim>\<open>group\<close> property is that
  group, and no child sequence holds an object twice.
\<close>

definition consistent :: "(nat \<Rightarrow> FabricObject) \<Rightarrow> bool" where
  "consistent h \<longleftrightarrow>
     (\<forall>G ob. ob \<in> set (objects (h G)) \<longleftrightarrow> group (h ob) = Some G) \<and> (\<forall>G. distinct (objects (h G)))"

text \<open>A geometry moved by a vector, as \<^verbatim>\<open>_adjustObjectPosition\<close> moves it.\<close>

definition shiftBy :: "point \<Rightarrow> Geometry \<Rightarrow> Geometry" where
  "shiftBy d g = g\<lparr>left := nadd (left g) (fst d), top' := nadd (top' g) (snd d)\<rparr>"

text \<open>The vector \<^verbatim>\<open>diff\<close> that \<^verbatim>\<open>_applyLayoutStrategy\<close> computes from a layout result.\<close>

definition layoutDiff :: "Base \<Rightarrow> State \<Rightarrow> nat \<Rightarrow> point \<Rightarrow> LayoutResult \<Rightarrow> point" where
  "layoutDiff B s this center result =
     transformPoint B
       (Point_add (Point_subtract center (centerX result, centerY result))
                  (orZero (correctionX result), orZero (correctionY result)))
       (invertTransform B (calcOwnMatrix B this (geom (heap s this)))) True"

text \<open>
  The half-extent of the axis-aligned box around a rotated rectangle, in the words of the
  specification: \<^verbatim>\<open>rx = hw*|cos t| + hh*|sin t|\<close> and \<^verbatim>\<open>ry = hw*|sin t| + hh*|cos t|\<close>.
\<close>

definition rotatedHalfExtent :: "real \<Rightarrow> real \<Rightarrow> real \<Rightarrow> real \<Rightarrow> real \<times> real" where
  "rotatedHalfExtent hw hh sinValue cosValue =
     (hw * \<bar>cosValue\<bar> + hh * \<bar>sinValue\<bar>, hw * \<bar>sinValue\<bar> + hh * \<bar>cosValue\<bar>)"

text \<open>The positions of some objects, for concrete runs.\<close>

definition positionsOf :: "nat list \<Rightarrow> State \<Rightarrow> point list" where
  "positionsOf xs s = map (\<lambda>x. (left (geom (heap s x)), top' (geom (heap s x)))) xs"

text \<open>
  The invariant in the middle of \<^verbatim>\<open>add\<close>: the objects of \<open>todo\<close> are already in the child
  sequence of \<open>this\<close> and have not entered it yet.
\<close>

definition pendingConsistent :: "(nat \<Rightarrow> FabricObject) \<Rightarrow> nat \<Rightarrow> nat list \<Rightarrow> bool" where
  "pendingConsistent h this todo \<longleftrightarrow>
     (\<forall>G ob. ob \<in> set (objects (h G)) \<longleftrightarrow> group (h ob) = Some G \<or> (G = this \<and> ob \<in> set todo))
     \<and> (\<forall>G. distinct (objects (h G)))
     \<and> (\<forall>ob\<in>set todo. group (h ob) \<noteq> Some this)
     \<and> distinct todo"

text \<open>
  The elements of \<open>objs\<close> that satisfy \<open>Q\<close>, each at its first position
  in \<open>objs\<close>, in the order of \<open>objs\<close>.
\<close>

definition firstAccepted :: "(nat \<Rightarrow> bool) \<Rightarrow> nat list \<Rightarrow> nat list" where
  "firstAccepted Q objs =
     map (\<lambda>i. objs ! i) (filter (\<lambda>i. Q (objs ! i) \<and> (\<forall>j<i. objs ! j \<noteq> objs ! i)) [0..<length objs])"

text \<open>
  The arguments that \<^verbatim>\<open>_filterObjectsBeforeEnteringGroup\<close> is to keep, in the words of the
  specification: the object is not the group, not one of its ancestors, not one of its
  children, and does not occur earlier in the argument.
\<close>

definition accepted :: "(nat \<Rightarrow> FabricObject) \<Rightarrow> nat \<Rightarrow> TAncestor list \<Rightarrow> nat list \<Rightarrow> nat list" where
  "accepted h this ancestors objs =
     firstAccepted (\<lambda>ob. ob \<noteq> this \<and> Obj ob \<notin> set ancestors \<and> ob \<notin> set (objects (h this))) objs"

text \<open>
  Every parent reference and every child is an index below \<open>N\<close>, and every chain of parent
  groups ends: the object graph is a finite forest.
\<close>

definition bounded :: "nat \<Rightarrow> (nat \<Rightarrow> FabricObject) \<Rightarrow> bool" where
  "bounded N h \<longleftrightarrow>
     (\<forall>x g. group (h x) = Some g \<longrightarrow> g < N) \<and> (\<forall>g c. c \<in> set (objects (h g)) \<longrightarrow> c < N)"

text \<open>The list \<open>xs\<close> is the chain of parents that starts at \<open>p\<close> and ends where there is none.\<close>

primrec isChain :: "(nat \<Rightarrow> FabricObject) \<Rightarrow> bool \<Rightarrow> TAncestor option \<Rightarrow> TAncestor list \<Rightarrow> bool" where
  "isChain h strict p [] = (p = None)"
| "isChain h strict p (a # as) = (p = Some a \<and> isChain h strict (parentOf h strict a) as)"

definition acyclicGroups :: "(nat \<Rightarrow> FabricObject) \<Rightarrow> bool" where
  "acyclicGroups h \<longleftrightarrow> (\<forall>x. \<exists>xs. isChain h True (parentOf h True (Obj x)) xs)"


section \<open>A base object without rotation, skew or scaling\<close>

text \<open>
  An instance of the parameter \<open>B\<close> for concrete runs: every object has its origin at its
  centre, unit scale, no skew and no stroke, and groups are not rotated, so that every
  transform is a translation, held in the last two entries of the matrix.  Angles stay in
  degrees on their way to \<open>sin'\<close> and \<open>cos'\<close>, which are exact at the quarter turns and
  not a number elsewhere.
\<close>

definition quarterTurnSin :: "num \<Rightarrow> num" where
  "quarterTurnSin a =
     (case a of
        None \<Rightarrow> None
      | Some d \<Rightarrow>
          if d = 0 \<or> d = 180 \<or> d = - 180 then Some 0
          else if d = 90 \<or> d = - 270 then Some 1
          else if d = - 90 \<or> d = 270 then Some (- 1)
          else None)"

definition quarterTurnCos :: "num \<Rightarrow> num" where
  "quarterTurnCos a =
     (case a of
        None \<Rightarrow> None
      | Some d \<Rightarrow>
          if d = 0 then Some 1
          else if d = 180 \<or> d = - 180 then Some (- 1)
          else if d = 90 \<or> d = - 90 \<or> d = 270 \<or> d = - 270 then Some 0
          else None)"

definition translation :: "num \<Rightarrow> num \<Rightarrow> TMat" where
  "translation e f = [Some 1, Some 0, Some 0, Some 1, e, f]"

definition plain_calcTransformMatrix :: "State \<Rightarrow> nat \<Rightarrow> TMat" where
  "plain_calcTransformMatrix s x =
     (case getAncestors 64 (heap s) x True of
        None \<Rightarrow> translation None None
      | Some as \<Rightarrow>
          fold (\<lambda>a m. case a of
                        Cnv c \<Rightarrow> m
                      | Obj g \<Rightarrow> translation (nadd (m ! 4) (left (geom (heap s g))))
                                             (nadd (m ! 5) (top' (geom (heap s g)))))
               as (translation (left (geom (heap s x))) (top' (geom (heap s x)))))"

definition plainBase :: Base where
  "plainBase =
     \<lparr>calcTransformMatrix = plain_calcTransformMatrix,
      calcOwnMatrix = (\<lambda>x g. translation (left g) (top' g)),
      getRelativeCenterPoint = (\<lambda>x g. (left g, top' g)),
      getCenterPoint = (\<lambda>s x. (plain_calcTransformMatrix s x ! 4, plain_calcTransformMatrix s x ! 5)),
      getTransformedDimensions =
        (\<lambda>x g d. case d of None \<Rightarrow> (width g, height g) | Some v \<Rightarrow> (dimWidth v, dimHeight v)),
      resolveOriginX = (\<lambda>x. Some 0),
      resolveOriginY = (\<lambda>x. Some 0),
      setPositionByOrigin = (\<lambda>x g p. g\<lparr>left := fst p, top' := snd p\<rparr>),
      applyTransformToObject = (\<lambda>x g m. g\<lparr>left := m ! 4, top' := m ! 5\<rparr>),
      invertTransform = (\<lambda>m. translation (nneg (m ! 4)) (nneg (m ! 5))),
      multiplyTransformMatrices = (\<lambda>a b. translation (nadd (a ! 4) (b ! 4)) (nadd (a ! 5) (b ! 5))),
      transformPoint =
        (\<lambda>p m ignoreOffset. if ignoreOffset then p else (nadd (fst p) (m ! 4), nadd (snd p) (m ! 5))),
      degreesToRadians = (\<lambda>a. a),
      sin' = quarterTurnSin,
      cos' = quarterTurnCos\<rparr>"

section \<open>Example scenes\<close>

definition emptyGeometry :: Geometry where
  "emptyGeometry = \<lparr>left = Some 0, top' = Some 0, width = Some 0, height = Some 0, angle = Some 0,
     skewX = Some 0, skewY = Some 0, scaleX = Some 1, scaleY = Some 1, flipX = False, flipY = False\<rparr>"

definition emptyObject :: FabricObject where
  "emptyObject = \<lparr>group = None, canvas = None, objects = [], activeObjects = [],
     firstLayoutDone = False, layout = ''fit-content'', subTargetCheck = False, interactive = False,
     dirty = False, clipPath = None, absolutePositioned = False, listeners = [], geom = emptyGeometry\<rparr>"

text \<open>
  Canvas 0 holds group 1, group 1 holds group 2 and object 4, group 2 holds object 3;
  object 5 is on its own.
\<close>

definition sceneHeap :: "nat \<Rightarrow> FabricObject" where
  "sceneHeap = (\<lambda>x. emptyObject)
     (1 := emptyObject\<lparr>canvas := Some 0, objects := [2, 4], firstLayoutDone := True\<rparr>,
      2 := emptyObject\<lparr>group := Some 1, canvas := Some 0, objects := [3], firstLayoutDone := True\<rparr>,
      3 := emptyObject\<lparr>group := Some 2, canvas := Some 0\<rparr>,
      4 := emptyObject\<lparr>group := Some 1, canvas := Some 0\<rparr>)"

definition sceneCanvases :: "nat \<Rightarrow> StaticCanvas" where
  "sceneCanvases = (\<lambda>c. \<lparr>canvasObjects = [], activeObject = None\<rparr>)
     (0 := \<lparr>canvasObjects = [1], activeObject = None\<rparr>)"

definition scene :: State where
  "scene = \<lparr>heap = sceneHeap, canvases = sceneCanvases, events = []\<rparr>"

text \<open>The same scene with object 5 as the active object of canvas 0.\<close>

definition activeScene :: State where
  "activeScene = scene\<lparr>canvases := (\<lambda>c. \<lparr>canvasObjects = [1], activeObject = Some 5\<rparr>)\<rparr>"

text \<open>
  Group 10 holds the square 11 and the rectangle 12, which is rotated by a quarter turn;
  object 13 is its clip path.  The layout mode and the first-layout flag are parameters.
\<close>

definition layoutHeap :: "string \<Rightarrow> bool \<Rightarrow> nat \<Rightarrow> FabricObject" where
  "layoutHeap l done = (\<lambda>x. emptyObject)
     (10 := emptyObject\<lparr>objects := [11, 12], layout := l, firstLayoutDone := done, clipPath := Some 13,
              geom := emptyGeometry\<lparr>width := Some 100, height := Some 100\<rparr>\<rparr>,
      11 := emptyObject\<lparr>group := Some 10, geom := emptyGeometry\<lparr>width := Some 10, height := Some 10\<rparr>\<rparr>,
      12 := emptyObject\<lparr>group := Some 10,
              geom := emptyGeometry\<lparr>left := Some 20, width := Some 10, height := Some 20, angle := Some 90\<rparr>\<rparr>,
      13 := emptyObject\<lparr>geom := emptyGeometry\<lparr>width := Some 50, height := Some 50\<rparr>\<rparr>)"

definition layoutScene :: "string \<Rightarrow> bool \<Rightarrow> State" where
  "layoutScene l done = \<lparr>heap = layoutHeap l done, canvases = sceneCanvases, events = []\<rparr>"

text \<open>The example group with the object \<open>x\<close> moved to the horizontal position \<open>v\<close>.\<close>

definition movedScene :: "string \<Rightarrow> bool \<Rightarrow> nat \<Rightarrow> real \<Rightarrow> State" where
  "movedScene l d x v = updGeom (layoutScene l d) x (\<lambda>g. g\<lparr>left := Some v\<rparr>)"


text \<open>The example group 10 as the only child of a group 20 whose first layout is done.\<close>

definition nestedScene :: "string \<Rightarrow> bool \<Rightarrow> State" where
  "nestedScene l d =
     updObject (updObject (layoutScene l d) 10 (\<lambda>ob. ob\<lparr>group := Some 20\<rparr>))
       20 (\<lambda>ob. ob\<lparr>objects := [10], firstLayoutDone := True\<rparr>)"

section \<open>Properties of the ancestry mixin\<close>

lemma getAncestors_loop_chain:
  "getAncestors_loop n h strict p acc = Some r \<Longrightarrow> \<exists>xs. r = acc @ xs \<and> isChain h strict p xs \<and> length xs < n"
proof (induction n arbitrary: p acc)
  case 0
  then show ?case by simp
next
  case (Suc n)
  show ?case
  proof (cases p)
    case None
    with Suc.prems show ?thesis by simp
  next
    case (Some a)
    with Suc.prems have "getAncestors_loop n h strict (parentOf h strict a) (acc @ [a]) = Some r" by simp
    from Suc.IH[OF this] obtain xs where "r = (acc @ [a]) @ xs" "isChain h strict (parentOf h strict a) xs" "length xs < n" by blast
    with Some show ?thesis by (intro exI[of _ "a # xs"]) simp
  qed
qed

lemma chain_getAncestors_loop:
  "isChain h strict p xs \<Longrightarrow> length xs < n \<Longrightarrow> getAncestors_loop n h strict p acc = Some (acc @ xs)"
proof (induction xs arbitrary: p acc n)
  case Nil
  then show ?case by (cases n) simp_all
next
  case (Cons a xs)
  then obtain m where n: "n = Suc m" by (cases n) auto
  with Cons show ?case by simp
qed

lemma getAncestors_iff:
  "getAncestors n h x strict = Some xs \<longleftrightarrow> isChain h strict (parentOf h strict (Obj x)) xs \<and> length xs < n"
  unfolding getAncestors_def
  using getAncestors_loop_chain[of n h strict "parentOf h strict (Obj x)" "[]" xs]
        chain_getAncestors_loop[of h strict "parentOf h strict (Obj x)" xs n "[]"]
  by auto

lemma isChain_unique: "isChain h strict p xs \<Longrightarrow> isChain h strict p ys \<Longrightarrow> xs = ys"
proof (induction xs arbitrary: p ys)
  case Nil
  then show ?case by (cases ys) auto
next
  case (Cons a xs)
  then show ?case by (cases ys) auto
qed

lemma isChain_append:
  "isChain h strict p (xs @ a # ys) \<Longrightarrow> isChain h strict (parentOf h strict a) ys"
  by (induction xs arbitrary: p) auto

lemma isChain_distinct: "isChain h strict p xs \<Longrightarrow> distinct xs"
proof (rule ccontr)
  assume c: "isChain h strict p xs" and "\<not> distinct xs"
  then obtain as bs cs y where xs: "xs = as @ [y] @ bs @ [y] @ cs"
    using not_distinct_decomp by blast
  from c xs have 1: "isChain h strict (parentOf h strict y) (bs @ [y] @ cs)"
    using isChain_append[of h strict p as y "bs @ [y] @ cs"] by simp
  from 1 have 2: "isChain h strict (parentOf h strict y) cs"
    using isChain_append[of h strict "parentOf h strict y" bs y cs] by simp
  from isChain_unique[OF 1 2] show False by simp
qed

lemma isChain_self_notin:
  assumes "isChain h strict (parentOf h strict a) xs" shows "a \<notin> set xs"
proof
  assume "a \<in> set xs"
  then obtain as bs where xs: "xs = as @ a # bs" by (auto simp: in_set_conv_decomp)
  with assms have "isChain h strict (parentOf h strict a) bs" using isChain_append by blast
  from isChain_unique[OF assms this] xs show False by simp
qed

lemma isChain_Cnv_last:
  "isChain h strict p (xs @ a # ys) \<Longrightarrow> a = Cnv c \<Longrightarrow> ys = []"
  using isChain_append[of h strict p xs a ys] by (cases ys) (auto simp: parentOf_def)

lemma inner_None:
  "(\<forall>k. j \<le> k \<and> k < length oanc \<longrightarrow> oanc ! k \<noteq> Obj this \<and> oanc ! k \<noteq> anc ! i) \<Longrightarrow>
   findCommonAncestors_inner this other anc oanc i j = None"
proof (induction this other anc oanc i j rule: findCommonAncestors_inner.induct)
  case (1 this other ancestors otherAncestors i j)
  show ?case
  proof (cases "j < length otherAncestors")
    case True
    with "1.prems" have a: "otherAncestors ! j \<noteq> Obj this" "otherAncestors ! j \<noteq> ancestors ! i" by auto
    have "findCommonAncestors_inner this other ancestors otherAncestors i (Suc j) = None"
      using "1.IH"[OF True] a "1.prems" by auto
    with True a show ?thesis
      by (subst findCommonAncestors_inner.simps) auto
  next
    case False
    then show ?thesis by (subst findCommonAncestors_inner.simps) simp
  qed
qed

lemma inner_skip:
  "j \<le> k \<Longrightarrow> k \<le> length oanc \<Longrightarrow>
   (\<forall>m. j \<le> m \<and> m < k \<longrightarrow> oanc ! m \<noteq> Obj this \<and> oanc ! m \<noteq> anc ! i) \<Longrightarrow>
   findCommonAncestors_inner this other anc oanc i j = findCommonAncestors_inner this other anc oanc i k"
proof (induction "k - j" arbitrary: j)
  case 0
  then show ?case by simp
next
  case (Suc d)
  then have jl: "j < length oanc" and jk: "j < k" by auto
  from Suc.prems jk have a: "oanc ! j \<noteq> Obj this" "oanc ! j \<noteq> anc ! i" by auto
  have "findCommonAncestors_inner this other anc oanc i (Suc j) = findCommonAncestors_inner this other anc oanc i k"
    using Suc.hyps(1)[of "Suc j"] Suc.hyps(2) Suc.prems jk by auto
  with jl a show ?case
    by (subst findCommonAncestors_inner.simps) auto
qed

lemma inner_self:
  assumes "k < length oanc" "oanc ! k = Obj this"
    and "\<forall>m<k. oanc ! m \<noteq> Obj this \<and> oanc ! m \<noteq> anc ! i"
  shows "findCommonAncestors_inner this other anc oanc i 0 =
         Some \<lparr>common = Obj this # anc, fork = [], otherFork = Obj other # take k oanc\<rparr>"
proof -
  have "findCommonAncestors_inner this other anc oanc i 0 = findCommonAncestors_inner this other anc oanc i k"
    using inner_skip[of 0 k oanc this anc i other] assms by auto
  also have "\<dots> = Some \<lparr>common = Obj this # anc, fork = [], otherFork = Obj other # take k oanc\<rparr>"
    using assms(1,2) by (subst findCommonAncestors_inner.simps) auto
  finally show ?thesis .
qed

lemma inner_pair:
  assumes "k < length oanc" "oanc ! k = anc ! i" "oanc ! k \<noteq> Obj this"
    and "\<forall>m<k. oanc ! m \<noteq> Obj this \<and> oanc ! m \<noteq> anc ! i"
  shows "findCommonAncestors_inner this other anc oanc i 0 =
         Some \<lparr>common = drop i anc, fork = Obj this # take i anc, otherFork = Obj other # take k oanc\<rparr>"
proof -
  have "findCommonAncestors_inner this other anc oanc i 0 = findCommonAncestors_inner this other anc oanc i k"
    using inner_skip[of 0 k oanc this anc i other] assms by auto
  also have "\<dots> = Some \<lparr>common = drop i anc, fork = Obj this # take i anc, otherFork = Obj other # take k oanc\<rparr>"
    using assms(1,2,3) by (subst findCommonAncestors_inner.simps) auto
  finally show ?thesis .
qed

lemma outer_skip:
  "i \<le> k \<Longrightarrow> k \<le> length anc \<Longrightarrow>
   (\<forall>m. i \<le> m \<and> m < k \<longrightarrow> anc ! m \<noteq> Obj other \<and> findCommonAncestors_inner this other anc oanc m 0 = None) \<Longrightarrow>
   findCommonAncestors_outer this other anc oanc i = findCommonAncestors_outer this other anc oanc k"
proof (induction "k - i" arbitrary: i)
  case 0
  then show ?case by simp
next
  case (Suc d)
  then have il: "i < length anc" and ik: "i < k" by auto
  from Suc.prems ik have a: "anc ! i \<noteq> Obj other" "findCommonAncestors_inner this other anc oanc i 0 = None" by auto
  have "findCommonAncestors_outer this other anc oanc (Suc i) = findCommonAncestors_outer this other anc oanc k"
    using Suc.hyps(1)[of "Suc i"] Suc.hyps(2) Suc.prems ik by auto
  with il a show ?case
    by (subst findCommonAncestors_outer.simps) auto
qed

lemma outer_end: "findCommonAncestors_outer this other anc oanc (length anc) = None"
  by (subst findCommonAncestors_outer.simps) simp

lemma isChain_drop:
  assumes "isChain h strict p xs" "k < length xs"
  shows "isChain h strict (parentOf h strict (xs ! k)) (drop (Suc k) xs)"
proof -
  have "xs = take k xs @ xs ! k # drop (Suc k) xs" using assms(2) by (rule id_take_nth_drop)
  with assms(1) show ?thesis using isChain_append[of h strict p "take k xs" "xs ! k" "drop (Suc k) xs"] by simp
qed



lemma fca_self_first:
  assumes anc: "getAncestors n h this strict = Some anc"
      and oanc: "getAncestors n h other strict = Some oanc"
      and ne: "this \<noteq> other"
      and j: "j < length oanc" "oanc ! j = Obj this"
  shows "findCommonAncestors n h this other strict =
         Some \<lparr>common = Obj this # anc, fork = [], otherFork = Obj other # take j oanc\<rparr>"
proof -
  from anc have ca: "isChain h strict (parentOf h strict (Obj this)) anc" by (simp add: getAncestors_iff)
  from oanc have co: "isChain h strict (parentOf h strict (Obj other)) oanc" by (simp add: getAncestors_iff)
  have d: "distinct oanc" using co by (rule isChain_distinct)
  have "isChain h strict (parentOf h strict (Obj this)) (drop (Suc j) oanc)"
    using isChain_drop[OF co j(1)] j(2) by simp
  with ca have eq: "anc = drop (Suc j) oanc" by (rule isChain_unique)
  have on: "Obj other \<notin> set oanc" using co by (rule isChain_self_notin)
  show ?thesis
  proof (cases "anc = []")
    case True
    with eq j(1) have "j = length oanc - 1" by simp
    moreover have "oanc \<noteq> []" using j(1) by auto
    ultimately show ?thesis using True j ne anc oanc
      by (simp add: findCommonAncestors_def)
  next
    case False
    have a0: "anc ! 0 = oanc ! Suc j" using eq False by (simp add: hd_drop_conv_nth)
    have sj: "Suc j < length oanc" using eq False by simp
    have "anc ! 0 \<in> set oanc" using a0 sj by (metis nth_mem)
    with on have n0: "anc ! 0 \<noteq> Obj other" by auto
    have pre: "\<forall>m<j. oanc ! m \<noteq> Obj this \<and> oanc ! m \<noteq> anc ! 0"
    proof (intro allI impI)
      fix m assume m: "m < j"
      have "oanc ! m \<noteq> oanc ! j" using d m j(1) by (simp add: nth_eq_iff_index_eq)
      moreover have "oanc ! m \<noteq> oanc ! Suc j" using d m sj by (simp add: nth_eq_iff_index_eq)
      ultimately show "oanc ! m \<noteq> Obj this \<and> oanc ! m \<noteq> anc ! 0" using j(2) a0 by simp
    qed
    have inner: "findCommonAncestors_inner this other anc oanc 0 0 =
         Some \<lparr>common = Obj this # anc, fork = [], otherFork = Obj other # take j oanc\<rparr>"
      using inner_self[OF j(1) j(2) pre] .
    have "findCommonAncestors_outer this other anc oanc 0 =
         Some \<lparr>common = Obj this # anc, fork = [], otherFork = Obj other # take j oanc\<rparr>"
      using False n0 inner by (subst findCommonAncestors_outer.simps) simp
    with False ne anc oanc show ?thesis
      by (simp add: findCommonAncestors_def)
  qed
qed

lemma fca_other_ancestor:
  assumes anc: "getAncestors n h this strict = Some anc"
      and ne: "this \<noteq> other"
      and i: "i < length anc" "anc ! i = Obj other"
  shows "getAncestors n h other strict = Some (drop (Suc i) anc)"
    and "findCommonAncestors n h this other strict =
         Some \<lparr>common = drop i anc, fork = Obj this # take i anc, otherFork = []\<rparr>"
proof -
  from anc have ca: "isChain h strict (parentOf h strict (Obj this)) anc" and ln: "length anc < n"
    by (simp_all add: getAncestors_iff)
  have d: "distinct anc" using ca by (rule isChain_distinct)
  have tn: "Obj this \<notin> set anc" using ca by (rule isChain_self_notin)
  have co: "isChain h strict (parentOf h strict (Obj other)) (drop (Suc i) anc)"
    using isChain_drop[OF ca i(1)] i(2) by simp
  then show oanc: "getAncestors n h other strict = Some (drop (Suc i) anc)"
    using ln by (simp add: getAncestors_iff)
  let ?oanc = "drop (Suc i) anc"
  have skip: "\<forall>m. 0 \<le> m \<and> m < i \<longrightarrow> anc ! m \<noteq> Obj other \<and> findCommonAncestors_inner this other anc ?oanc m 0 = None"
  proof (intro allI impI)
    fix m assume m: "0 \<le> m \<and> m < i"
    have 1: "anc ! m \<noteq> Obj other" using d m i by (metis nth_eq_iff_index_eq less_trans nat_neq_iff)
    have 2: "\<forall>k. 0 \<le> k \<and> k < length ?oanc \<longrightarrow> ?oanc ! k \<noteq> Obj this \<and> ?oanc ! k \<noteq> anc ! m"
    proof (intro allI impI)
      fix k assume k: "0 \<le> k \<and> k < length ?oanc"
      then have kk: "Suc i + k < length anc" by simp
      have e: "?oanc ! k = anc ! (Suc i + k)" using kk by simp
      have "anc ! (Suc i + k) \<in> set anc" using kk by (rule nth_mem)
      with tn have a: "anc ! (Suc i + k) \<noteq> Obj this" by auto
      have b: "anc ! (Suc i + k) \<noteq> anc ! m" using d kk m by (simp add: nth_eq_iff_index_eq)
      from a b e show "?oanc ! k \<noteq> Obj this \<and> ?oanc ! k \<noteq> anc ! m" by simp
    qed
    from 1 inner_None[OF 2] show "anc ! m \<noteq> Obj other \<and> findCommonAncestors_inner this other anc ?oanc m 0 = None" by simp
  qed
  have "findCommonAncestors_outer this other anc ?oanc 0 = findCommonAncestors_outer this other anc ?oanc i"
    using outer_skip[of 0 i anc other this ?oanc] skip i(1) by simp
  also have "\<dots> = Some \<lparr>common = drop i anc, fork = Obj this # take i anc, otherFork = []\<rparr>"
    using i by (subst findCommonAncestors_outer.simps) simp
  finally have "findCommonAncestors_outer this other anc ?oanc 0 =
      Some \<lparr>common = drop i anc, fork = Obj this # take i anc, otherFork = []\<rparr>" .
  moreover have "anc \<noteq> []" using i(1) by auto
  ultimately show "findCommonAncestors n h this other strict =
         Some \<lparr>common = drop i anc, fork = Obj this # take i anc, otherFork = []\<rparr>"
    using ne anc oanc by (simp add: findCommonAncestors_def)
qed

lemma fca_first_pair:
  assumes anc: "getAncestors n h this strict = Some anc"
      and oanc: "getAncestors n h other strict = Some oanc"
      and ne: "this \<noteq> other"
      and tn: "Obj this \<notin> set oanc" and on: "Obj other \<notin> set anc"
      and ij: "i < length anc" "j < length oanc" "anc ! i = oanc ! j"
      and mini: "\<forall>i'<i. anc ! i' \<notin> set oanc"
      and minj: "\<forall>j'<j. oanc ! j' \<noteq> anc ! i"
  shows "findCommonAncestors n h this other strict =
         Some \<lparr>common = drop i anc, fork = Obj this # take i anc, otherFork = Obj other # take j oanc\<rparr>"
proof -
  have skip: "\<forall>m. 0 \<le> m \<and> m < i \<longrightarrow> anc ! m \<noteq> Obj other \<and> findCommonAncestors_inner this other anc oanc m 0 = None"
  proof (intro allI impI)
    fix m assume m: "0 \<le> m \<and> m < i"
    then have "anc ! m \<in> set anc" using ij(1) by simp
    with on have 1: "anc ! m \<noteq> Obj other" by auto
    have 2: "\<forall>k. 0 \<le> k \<and> k < length oanc \<longrightarrow> oanc ! k \<noteq> Obj this \<and> oanc ! k \<noteq> anc ! m"
      using tn mini m by (metis nth_mem)
    from 1 inner_None[OF 2] show "anc ! m \<noteq> Obj other \<and> findCommonAncestors_inner this other anc oanc m 0 = None" by simp
  qed
  have ai: "anc ! i \<noteq> Obj other" using on ij(1) by (metis nth_mem)
  have oj: "oanc ! j \<noteq> Obj this" using tn ij(2) by (metis nth_mem)
  have pre: "\<forall>m<j. oanc ! m \<noteq> Obj this \<and> oanc ! m \<noteq> anc ! i"
    using tn minj ij(2) by (metis nth_mem less_trans)
  have inner: "findCommonAncestors_inner this other anc oanc i 0 =
     Some \<lparr>common = drop i anc, fork = Obj this # take i anc, otherFork = Obj other # take j oanc\<rparr>"
    using inner_pair[OF ij(2) ij(3)[symmetric] oj pre] .
  have "findCommonAncestors_outer this other anc oanc 0 = findCommonAncestors_outer this other anc oanc i"
    using outer_skip[of 0 i anc other this oanc] skip ij(1) by simp
  also have "\<dots> = Some \<lparr>common = drop i anc, fork = Obj this # take i anc, otherFork = Obj other # take j oanc\<rparr>"
    using ij(1) ai inner by (subst findCommonAncestors_outer.simps) simp
  finally have "findCommonAncestors_outer this other anc oanc 0 =
     Some \<lparr>common = drop i anc, fork = Obj this # take i anc, otherFork = Obj other # take j oanc\<rparr>" .
  moreover have "anc \<noteq> []" using ij(1) by auto
  ultimately show ?thesis using ne anc oanc by (simp add: findCommonAncestors_def)
qed

lemma fca_nothing_shared:
  assumes anc: "getAncestors n h this strict = Some anc"
      and oanc: "getAncestors n h other strict = Some oanc"
      and ne: "this \<noteq> other"
      and tn: "Obj this \<notin> set oanc" and on: "Obj other \<notin> set anc"
      and dis: "set anc \<inter> set oanc = {}"
  shows "findCommonAncestors n h this other strict =
         Some \<lparr>common = [], fork = Obj this # anc, otherFork = Obj other # oanc\<rparr>"
proof -
  have skip: "\<forall>m. 0 \<le> m \<and> m < length anc \<longrightarrow> anc ! m \<noteq> Obj other \<and> findCommonAncestors_inner this other anc oanc m 0 = None"
  proof (intro allI impI)
    fix m assume m: "0 \<le> m \<and> m < length anc"
    then have in_anc: "anc ! m \<in> set anc" by simp
    with on have 1: "anc ! m \<noteq> Obj other" by auto
    have 2: "\<forall>k. 0 \<le> k \<and> k < length oanc \<longrightarrow> oanc ! k \<noteq> Obj this \<and> oanc ! k \<noteq> anc ! m"
      using tn dis in_anc by (metis disjoint_iff nth_mem)
    from 1 inner_None[OF 2] show "anc ! m \<noteq> Obj other \<and> findCommonAncestors_inner this other anc oanc m 0 = None" by simp
  qed
  have "findCommonAncestors_outer this other anc oanc 0 = findCommonAncestors_outer this other anc oanc (length anc)"
    using outer_skip[of 0 "length anc" anc other this oanc] skip by simp
  then have o: "findCommonAncestors_outer this other anc oanc 0 = None" by (simp add: outer_end)
  have "\<not> (length anc = 0 \<and> length oanc > 0 \<and> Obj this = oanc ! (length oanc - 1))"
    using tn by (metis nth_mem diff_less zero_less_one)
  with o ne anc oanc show ?thesis by (simp add: findCommonAncestors_def)
qed


lemma indexOf_ge: "- 1 \<le> indexOf xs x"
  by (induction xs) (auto simp: Let_def)

lemma indexOf_notin: "indexOf xs x = - 1 \<longleftrightarrow> x \<notin> set xs"
proof (induction xs)
  case Nil
  then show ?case by simp
next
  case (Cons y ys)
  have "- 1 \<le> indexOf ys x" by (rule indexOf_ge)
  with Cons show ?case by (auto simp: Let_def)
qed

lemma indexOf_in: "x \<in> set xs \<longleftrightarrow> 0 \<le> indexOf xs x"
  using indexOf_notin[of xs x] indexOf_ge[of xs x] by auto











lemma scene_ancestors:
  "getAncestors 5 sceneHeap 1 False = Some [Cnv 0]"
  "getAncestors 5 sceneHeap 2 False = Some [Obj 1, Cnv 0]"
  "getAncestors 5 sceneHeap 3 False = Some [Obj 2, Obj 1, Cnv 0]"
  "getAncestors 5 sceneHeap 4 False = Some [Obj 1, Cnv 0]"
  "getAncestors 5 sceneHeap 5 False = Some []"
  by (simp_all add: getAncestors_def parentOf_def sceneHeap_def emptyObject_def eval_nat_numeral)

text \<open>
  Claim C8.  For two distinct objects whose ancestor walks end, \<^verbatim>\<open>findCommonAncestors\<close>
  behaves as follows.  If the object itself is one of the other's ancestors, that is the
  result, whatever else the two lists share.  If the other object is one of its ancestors,
  the fork ends there.  Otherwise the fork point is the first ancestor of the object, in
  the order of its own list, that occurs in the other's list, at its first position there:
  the object's scan order decides, not the distance.  If the lists share nothing, \<open>common\<close>
  is empty and each fork is the full chain of its object, the object included.
\<close>

theorem findCommonAncestors_scan_order:
  assumes "getAncestors n h this strict = Some ancestors"
      and "getAncestors n h other strict = Some otherAncestors"
      and "this \<noteq> other"
  shows "(\<forall>j<length otherAncestors. otherAncestors ! j = Obj this \<longrightarrow>
            findCommonAncestors n h this other strict =
              Some \<lparr>common = Obj this # ancestors, fork = [], otherFork = Obj other # take j otherAncestors\<rparr>)
       \<and> (\<forall>i<length ancestors. ancestors ! i = Obj other \<longrightarrow>
            findCommonAncestors n h this other strict =
              Some \<lparr>common = drop i ancestors, fork = Obj this # take i ancestors, otherFork = []\<rparr>)
       \<and> (\<forall>i j. Obj this \<notin> set otherAncestors \<and> Obj other \<notin> set ancestors
              \<and> i < length ancestors \<and> j < length otherAncestors \<and> ancestors ! i = otherAncestors ! j
              \<and> (\<forall>i'<i. ancestors ! i' \<notin> set otherAncestors)
              \<and> (\<forall>j'<j. otherAncestors ! j' \<noteq> ancestors ! i) \<longrightarrow>
            findCommonAncestors n h this other strict =
              Some \<lparr>common = drop i ancestors, fork = Obj this # take i ancestors,
                    otherFork = Obj other # take j otherAncestors\<rparr>)
       \<and> (Obj this \<notin> set otherAncestors \<and> Obj other \<notin> set ancestors
              \<and> set ancestors \<inter> set otherAncestors = {} \<longrightarrow>
            findCommonAncestors n h this other strict =
              Some \<lparr>common = [], fork = Obj this # ancestors, otherFork = Obj other # otherAncestors\<rparr>)"
proof (intro conjI allI impI)
  fix j assume "j < length otherAncestors" "otherAncestors ! j = Obj this"
  then show "findCommonAncestors n h this other strict =
      Some \<lparr>common = Obj this # ancestors, fork = [], otherFork = Obj other # take j otherAncestors\<rparr>"
    using fca_self_first[OF assms] by simp
next
  fix i assume "i < length ancestors" "ancestors ! i = Obj other"
  then show "findCommonAncestors n h this other strict =
      Some \<lparr>common = drop i ancestors, fork = Obj this # take i ancestors, otherFork = []\<rparr>"
    using fca_other_ancestor(2)[OF assms(1) assms(3)] by simp
next
  fix i j
  assume a: "Obj this \<notin> set otherAncestors \<and> Obj other \<notin> set ancestors
              \<and> i < length ancestors \<and> j < length otherAncestors \<and> ancestors ! i = otherAncestors ! j
              \<and> (\<forall>i'<i. ancestors ! i' \<notin> set otherAncestors)
              \<and> (\<forall>j'<j. otherAncestors ! j' \<noteq> ancestors ! i)"
  show "findCommonAncestors n h this other strict =
      Some \<lparr>common = drop i ancestors, fork = Obj this # take i ancestors,
            otherFork = Obj other # take j otherAncestors\<rparr>"
    by (rule fca_first_pair[OF assms]) (use a in blast)+
next
  assume a: "Obj this \<notin> set otherAncestors \<and> Obj other \<notin> set ancestors
              \<and> set ancestors \<inter> set otherAncestors = {}"
  show "findCommonAncestors n h this other strict =
      Some \<lparr>common = [], fork = Obj this # ancestors, otherFork = Obj other # otherAncestors\<rparr>"
    by (rule fca_nothing_shared[OF assms]) (use a in blast)+
qed

theorem findCommonAncestors_scan_order_witness:
  "findCommonAncestors 5 sceneHeap 2 3 False =
     Some \<lparr>common = [Obj 2, Obj 1, Cnv 0], fork = [], otherFork = [Obj 3]\<rparr>
   \<and> findCommonAncestors 5 sceneHeap 3 1 False =
     Some \<lparr>common = [Obj 1, Cnv 0], fork = [Obj 3, Obj 2], otherFork = []\<rparr>
   \<and> findCommonAncestors 5 sceneHeap 3 4 False =
     Some \<lparr>common = [Obj 1, Cnv 0], fork = [Obj 3, Obj 2], otherFork = [Obj 4]\<rparr>
   \<and> findCommonAncestors 5 sceneHeap 3 5 False =
     Some \<lparr>common = [], fork = [Obj 3, Obj 2, Obj 1, Cnv 0], otherFork = [Obj 5]\<rparr>"
proof (intro conjI)
  have ne: "(2::nat) \<noteq> 3" "(3::nat) \<noteq> 1" "(3::nat) \<noteq> 4" "(3::nat) \<noteq> 5" by simp_all
  note a = findCommonAncestors_scan_order[OF scene_ancestors(2) scene_ancestors(3) ne(1), THEN conjunct1, rule_format, of 0]
  then show "findCommonAncestors 5 sceneHeap 2 3 False =
     Some \<lparr>common = [Obj 2, Obj 1, Cnv 0], fork = [], otherFork = [Obj 3]\<rparr>" by simp
  note b = findCommonAncestors_scan_order[OF scene_ancestors(3) scene_ancestors(1) ne(2), THEN conjunct2, THEN conjunct1, rule_format, of 1]
  then show "findCommonAncestors 5 sceneHeap 3 1 False =
     Some \<lparr>common = [Obj 1, Cnv 0], fork = [Obj 3, Obj 2], otherFork = []\<rparr>" by simp
  note c = findCommonAncestors_scan_order[OF scene_ancestors(3) scene_ancestors(4) ne(3), THEN conjunct2, THEN conjunct2, THEN conjunct1, rule_format, of 1 0]
  then show "findCommonAncestors 5 sceneHeap 3 4 False =
     Some \<lparr>common = [Obj 1, Cnv 0], fork = [Obj 3, Obj 2], otherFork = [Obj 4]\<rparr>" by simp
  note d = findCommonAncestors_scan_order[OF scene_ancestors(3) scene_ancestors(5) ne(4), THEN conjunct2, THEN conjunct2, THEN conjunct2, rule_format]
  then show "findCommonAncestors 5 sceneHeap 3 5 False =
     Some \<lparr>common = [], fork = [Obj 3, Obj 2, Obj 1, Cnv 0], otherFork = [Obj 5]\<rparr>" by simp
qed






section \<open>Properties of the layout procedure\<close>

lemmas num_defs =
  lift2_def nadd_def nsub_def nmul_def nmin_def nmax_def nneg_def nabs_def nhalf_def orZero_def truthy_def

lemmas point_defs =
  Point_add_def Point_subtract_def Point_multiply_def Point_scalarAdd_def Point_scalarDivide2_def
  Point_midPointFrom_def Point_eq_def

lemmas plain_defs = plainBase_def translation_def quarterTurnSin_def quarterTurnCos_def

lemmas layoutScene_defs = layoutScene_def layoutHeap_def emptyObject_def emptyGeometry_def

lemmas scene_defs = scene_def sceneHeap_def sceneCanvases_def emptyObject_def emptyGeometry_def

subsection \<open>The effect of a layout result on the geometry\<close>

lemma adjustObjectPosition_heap:
  "heap (adjustObjectPosition s object d) x =
     (if x = object then (heap s x)\<lparr>geom := shiftBy d (geom (heap s x))\<rparr> else heap s x)"
  by (simp add: adjustObjectPosition_def updGeom_def updObject_def shiftBy_def)

lemma fold_adjust_heap:
  "distinct xs \<Longrightarrow>
   heap (fold (\<lambda>object st. adjustObjectPosition st object d) xs s) x =
     (if x \<in> set xs then (heap s x)\<lparr>geom := shiftBy d (geom (heap s x))\<rparr> else heap s x)"
proof (induction xs arbitrary: s)
  case Nil
  then show ?case by simp
next
  case (Cons a xs)
  then show ?case by (auto simp: adjustObjectPosition_heap)
qed

lemma updGeom_heap:
  "heap (updGeom s y f) x = (if x = y then (heap s x)\<lparr>geom := f (geom (heap s x))\<rparr> else heap s x)"
  by (simp add: updGeom_def updObject_def)

lemma updObject_heap:
  "heap (updObject s y f) x = (if x = y then f (heap s x) else heap s x)"
  by (simp add: updObject_def)

lemma setInitialTransform_heap_other:
  "x \<noteq> this \<Longrightarrow> heap (setInitialTransform s this it) x = heap s x"
  by (cases it) (auto simp: setInitialTransform_def updGeom_heap)

lemma applyLayoutResult_diff:
  "snd (applyLayoutResult B s this ctx center it r) = layoutDiff B s this center r"
  by (simp add: applyLayoutResult_def layoutDiff_def Let_def)

lemma applyLayoutResult_other:
  assumes d: "distinct (objects (heap s this))" and x: "x \<noteq> this"
  shows "heap (fst (applyLayoutResult B s this ctx center it r)) x =
     (let d = layoutDiff B s this center r;
          o1 = (if x \<in> set (objects (heap s this)) \<and> \<not> objectsRelativeToGroup ctx
                then (heap s x)\<lparr>geom := shiftBy d (geom (heap s x))\<rparr> else heap s x)
      in if clipPath (heap s this) = Some x \<and> type ctx \<noteq> initialization
            \<and> layout (heap s this) \<noteq> ''clip-path'' \<and> \<not> absolutePositioned (heap s x)
         then o1\<lparr>geom := shiftBy d (geom o1)\<rparr> else o1)"
proof -
  let ?d = "layoutDiff B s this center r"
  let ?s1 = "updGeom s this (\<lambda>g. g\<lparr>width := resWidth r, height := resHeight r\<rparr>)"
  let ?s2 = "if \<not> objectsRelativeToGroup ctx
             then fold (\<lambda>object st. adjustObjectPosition st object ?d) (objects (heap ?s1 this)) ?s1 else ?s1"
  have k: "objects (heap ?s1 this) = objects (heap s this)" by (simp add: updGeom_heap)
  have h2: "heap ?s2 y = (if y \<in> set (objects (heap s this)) \<and> \<not> objectsRelativeToGroup ctx
               then (heap ?s1 y)\<lparr>geom := shiftBy ?d (geom (heap ?s1 y))\<rparr> else heap ?s1 y)" for y
    using d by (simp add: k fold_adjust_heap)
  have t2: "clipPath (heap ?s2 this) = clipPath (heap s this)" "layout (heap ?s2 this) = layout (heap s this)"
    by (simp_all add: h2 updGeom_heap)
  have a2: "absolutePositioned (heap ?s2 y) = absolutePositioned (heap s y)" for y
    by (simp add: h2 updGeom_heap)
  let ?s3 = "case clipPath (heap ?s2 this) of None \<Rightarrow> ?s2
             | Some cp \<Rightarrow> if \<not> (type ctx = initialization) \<and> layout (heap ?s2 this) \<noteq> ''clip-path''
                             \<and> \<not> absolutePositioned (heap ?s2 cp)
                          then adjustObjectPosition ?s2 cp ?d else ?s2"
  have h3: "heap ?s3 x = (if clipPath (heap s this) = Some x \<and> type ctx \<noteq> initialization
            \<and> layout (heap s this) \<noteq> ''clip-path'' \<and> \<not> absolutePositioned (heap s x)
         then (heap ?s2 x)\<lparr>geom := shiftBy ?d (geom (heap ?s2 x))\<rparr> else heap ?s2 x)"
    by (cases "clipPath (heap s this)") (simp_all add: t2 a2 adjustObjectPosition_heap)
  have h4: "heap (fst (applyLayoutResult B s this ctx center it r)) x = heap ?s3 x"
    unfolding applyLayoutResult_def Let_def layoutDiff_def[symmetric] fst_conv
    using x by (simp add: setInitialTransform_heap_other updGeom_heap)
  have h2x: "heap ?s2 x = (if x \<in> set (objects (heap s this)) \<and> \<not> objectsRelativeToGroup ctx
               then (heap s x)\<lparr>geom := shiftBy ?d (geom (heap s x))\<rparr> else heap s x)"
    using x by (simp add: h2 updGeom_heap)
  show ?thesis unfolding h4 h3 h2x Let_def by simp
qed

text \<open>A layout result changes geometry only.\<close>

lemma fold_adjust_field:
  assumes "\<And>ob g. f (ob\<lparr>geom := g\<rparr>) = f ob"
  shows "f (heap (fold (\<lambda>object st. adjustObjectPosition st object d) xs s) x) = f (heap s x)"
proof (induction xs arbitrary: s)
  case Nil
  then show ?case by simp
next
  case (Cons a xs)
  then show ?case by (simp add: adjustObjectPosition_heap assms)
qed

lemma setInitialTransform_field:
  assumes "\<And>ob g. f (ob\<lparr>geom := g\<rparr>) = f ob"
  shows "f (heap (setInitialTransform s this it) x) = f (heap s x)"
  by (cases it) (auto simp: setInitialTransform_def updGeom_heap assms)

lemma applyLayoutResult_field:
  assumes f: "\<And>ob g. f (ob\<lparr>geom := g\<rparr>) = f ob"
  shows "f (heap (fst (applyLayoutResult B s this ctx center it r)) x) = f (heap s x)"
proof -
  let ?d = "layoutDiff B s this center r"
  let ?s1 = "updGeom s this (\<lambda>g. g\<lparr>width := resWidth r, height := resHeight r\<rparr>)"
  let ?s2 = "if \<not> objectsRelativeToGroup ctx
             then fold (\<lambda>object st. adjustObjectPosition st object ?d) (objects (heap ?s1 this)) ?s1 else ?s1"
  let ?s3 = "case clipPath (heap ?s2 this) of None \<Rightarrow> ?s2
             | Some cp \<Rightarrow> if \<not> (type ctx = initialization) \<and> layout (heap ?s2 this) \<noteq> ''clip-path''
                             \<and> \<not> absolutePositioned (heap ?s2 cp)
                          then adjustObjectPosition ?s2 cp ?d else ?s2"
  have 1: "f (heap ?s1 y) = f (heap s y)" for y by (simp add: updGeom_heap f)
  have 2: "f (heap ?s2 y) = f (heap s y)" for y by (simp add: fold_adjust_field[of f, OF f] 1)
  have 3: "f (heap ?s3 y) = f (heap s y)" for y
    by (cases "clipPath (heap ?s2 this)") (simp_all add: adjustObjectPosition_heap f 2)
  show ?thesis
    unfolding applyLayoutResult_def Let_def layoutDiff_def[symmetric] fst_conv
    by (simp add: setInitialTransform_field[of f, OF f] updGeom_heap f 3)
qed

lemma updObject_rest [simp]:
  "canvases (updObject s y f) = canvases s" "events (updObject s y f) = events s"
  by (simp_all add: updObject_def)

lemma updGeom_rest [simp]:
  "canvases (updGeom s y f) = canvases s" "events (updGeom s y f) = events s"
  by (simp_all add: updGeom_def)

lemma adjustObjectPosition_rest [simp]:
  "canvases (adjustObjectPosition s y d) = canvases s" "events (adjustObjectPosition s y d) = events s"
  by (simp_all add: adjustObjectPosition_def)

lemma fold_adjust_rest [simp]:
  "canvases (fold (\<lambda>object st. adjustObjectPosition st object d) xs t) = canvases t"
  "events (fold (\<lambda>object st. adjustObjectPosition st object d) xs t) = events t"
  by (induction xs arbitrary: t) simp_all

lemma setInitialTransform_rest [simp]:
  "canvases (setInitialTransform t this it) = canvases t" "events (setInitialTransform t this it) = events t"
  by (cases it; auto simp: setInitialTransform_def)+

lemma applyLayoutResult_rest:
  "canvases (fst (applyLayoutResult B s this ctx center it r)) = canvases s"
  "events (fst (applyLayoutResult B s this ctx center it r)) = events s"
  unfolding applyLayoutResult_def Let_def fst_conv
  by (simp_all split: option.splits)

text \<open>The layout procedure on a group that has no parent group, when there is a result.\<close>

lemma applyLayoutStrategy_root:
  assumes g: "group (heap s this) = None"
      and p: "type ctx = initialization \<or> firstLayoutDone (heap s this)"
      and r: "getLayoutStrategyResult B s this (layout (heap s this)) (objects (heap s this)) ctx = Some r"
      and c: "center = getRelativeCenterPoint B this (geom (heap s this))"
      and i: "it = map_option (\<lambda>v. (orZero (optAngle v), orZero (optSkewX v), orZero (optSkewY v)))
                     (if type ctx = initialization then options ctx else None)"
  shows "applyLayoutStrategy (Suc n) B s this ctx =
           Some (fire (updObject (fst (applyLayoutResult B s this ctx center it r)) this
                                 (\<lambda>ob. ob\<lparr>firstLayoutDone := True\<rparr>))
                      (FireLayout this ctx r (Some (layoutDiff B s this center r))))"
proof -
  have "group (heap (fst (applyLayoutResult B s this ctx center it r)) this) = None"
    using applyLayoutResult_field[of group] g by simp
  then show ?thesis
    using p r c i
    by (auto simp: applyLayoutStrategy.simps Let_def applyLayoutResult_diff fire_def updObject_def)
qed








text \<open>The bounding box reads the geometry of the listed objects and of the group.\<close>

lemma forEach_box_cong:
  "\<forall>x\<in>set objs. geom (heap s' x) = geom (heap s x) \<Longrightarrow>
   getObjectsBoundingBox_forEach B s' objs i mm = getObjectsBoundingBox_forEach B s objs i mm"
  by (induction objs arbitrary: i mm) (simp_all add: Let_def)

lemma getObjectsBoundingBox_cong:
  assumes "\<forall>x\<in>set (objs @ [this]). geom (heap s' x) = geom (heap s x)"
  shows "getObjectsBoundingBox B s' this objs ig = getObjectsBoundingBox B s this objs ig"
proof -
  have "getObjectsBoundingBox_forEach B s' objs i mm = getObjectsBoundingBox_forEach B s objs i mm" for i mm
    using assms by (intro forEach_box_cong) simp
  moreover have "geom (heap s' this) = geom (heap s this)" using assms by simp
  ultimately show ?thesis by (simp add: getObjectsBoundingBox_def)
qed

subsection \<open>The example group\<close>

lemma layoutScene_fields:
  "group (heap (layoutScene l d) 10) = None"
  "layout (heap (layoutScene l d) 10) = l"
  "firstLayoutDone (heap (layoutScene l d) 10) = d"
  "objects (heap (layoutScene l d) 10) = [11, 12]"
  "clipPath (heap (layoutScene l d) 10) = Some 13"
  "absolutePositioned (heap (layoutScene l d) 13) = False"
  "getRelativeCenterPoint plainBase 10 (geom (heap (layoutScene l d) 10)) = (Some 0, Some 0)"
  by (simp_all add: layoutScene_defs plain_defs)


lemma bbox_example:
  "getObjectsBoundingBox plainBase (layoutScene l d) 10 [11, 12] False =
     Some \<lparr>centerX = Some (25 / 2), centerY = Some 0, correctionX = None, correctionY = None,
           resWidth = Some 35, resHeight = Some 10, offsetX = Some (- 5), offsetY = Some (- 5)\<rparr>"
  by (simp add: getObjectsBoundingBox_def num_defs point_defs plain_defs layoutScene_defs Let_def)




lemma modified_result_example:
  "getLayoutStrategyResult plainBase (layoutScene ''fit-content'' d) 10 ''fit-content'' [11, 12]
     (newContext object_modified) =
     Some \<lparr>centerX = Some (25 / 2), centerY = Some 0, correctionX = None, correctionY = None,
           resWidth = Some 35, resHeight = Some 10, offsetX = Some (- 5), offsetY = Some (- 5)\<rparr>"
  by (simp add: getLayoutStrategyResult_def prepareBoundingBox_def bbox_example) (simp add: newContext_def)

lemma modified_diff_example:
  "layoutDiff plainBase (layoutScene l d) 10 (Some 0, Some 0)
     \<lparr>centerX = Some (25 / 2), centerY = Some 0, correctionX = None, correctionY = None,
           resWidth = Some 35, resHeight = Some 10, offsetX = Some (- 5), offsetY = Some (- 5)\<rparr>
   = (Some (- (25 / 2)), Some 0)"
  by (simp add: layoutDiff_def num_defs point_defs plain_defs)

lemma positionsOf_fire_upd:
  "y \<notin> set xs \<Longrightarrow> positionsOf xs (fire (updObject s y f) e) = positionsOf xs s"
  by (induction xs) (auto simp: positionsOf_def fire_def updObject_def)

lemma nestedScene_fields:
  "group (heap (nestedScene l d) 10) = Some 20"
  "group (heap (nestedScene l d) 20) = None"
  "layout (heap (nestedScene l d) 10) = l"
  "firstLayoutDone (heap (nestedScene l d) 10) = d"
  "objects (heap (nestedScene l d) 10) = [11, 12]"
  "objects (heap (nestedScene l d) 20) = [10]"
  "clipPath (heap (nestedScene l d) 10) = Some 13"
  "clipPath (heap (nestedScene l d) 20) = None"
  "absolutePositioned (heap (nestedScene l d) 13) = False"
  "geom (heap (nestedScene l d) x) = geom (heap (layoutScene l d) x)"
  by (simp_all add: nestedScene_def updObject_def layoutScene_defs)

lemma nestedScene_chain:
  "isChain (heap (nestedScene l d)) True (parentOf (heap (nestedScene l d)) True (Obj 10)) [Obj 20]"
  by (simp add: parentOf_def nestedScene_fields)



lemma modified_run_example:
  "map_option (\<lambda>s'. (positionsOf [11, 12] s', length (events s')))
     (applyLayoutStrategy (Suc 0) plainBase (layoutScene ''fit-content'' True) 10 (newContext object_modified))
   = Some ([(Some (- (25 / 2)), Some 0), (Some (15 / 2), Some 0)], 1)"
proof -
  let ?s = "layoutScene ''fit-content'' True"
  let ?ctx = "newContext object_modified"
  let ?r = "\<lparr>centerX = Some (25 / 2), centerY = Some 0, correctionX = None, correctionY = None,
           resWidth = Some 35, resHeight = Some 10, offsetX = Some (- 5), offsetY = Some (- 5)\<rparr>"
  let ?s1 = "fst (applyLayoutResult plainBase ?s 10 ?ctx (Some 0, Some 0) None ?r)"
  have t: "type ?ctx = object_modified" "type ?ctx \<noteq> initialization" "options ?ctx = None"
          "\<not> objectsRelativeToGroup ?ctx"
    by (simp_all add: newContext_def)
  have run: "applyLayoutStrategy (Suc 0) plainBase ?s 10 ?ctx =
      Some (fire (updObject ?s1 10 (\<lambda>ob. ob\<lparr>firstLayoutDone := True\<rparr>))
                 (FireLayout 10 ?ctx ?r (Some (layoutDiff plainBase ?s 10 (Some 0, Some 0) ?r))))"
    by (rule applyLayoutStrategy_root)
       (simp_all add: layoutScene_fields modified_result_example t)
  have d: "distinct (objects (heap ?s 10))" by (simp add: layoutScene_fields)
  have h: "heap ?s1 11 = (heap ?s 11)\<lparr>geom := shiftBy (Some (- (25 / 2)), Some 0) (geom (heap ?s 11))\<rparr>"
          "heap ?s1 12 = (heap ?s 12)\<lparr>geom := shiftBy (Some (- (25 / 2)), Some 0) (geom (heap ?s 12))\<rparr>"
    by (simp_all add: applyLayoutResult_other[OF d] layoutScene_fields modified_diff_example t)
  have p: "positionsOf [11, 12] ?s1 = [(Some (- (25 / 2)), Some 0), (Some (15 / 2), Some 0)]"
    unfolding positionsOf_def by (simp add: h) (simp add: shiftBy_def num_defs layoutScene_defs)
  have e: "events ?s1 = []" by (simp add: applyLayoutResult_rest layoutScene_def)
  show ?thesis
    by (simp add: run positionsOf_fire_upd p) (simp add: fire_def e)
qed

subsection \<open>The first layout and the fixed mode\<close>

text \<open>
  Claim C3.  While the first-layout flag of a group is unset, the layout procedure called
  with a trigger other than \<^verbatim>\<open>initialization\<close> returns at once: the state it returns is
  the state it was given, so no size, position or child has changed and no event has been
  fired.
\<close>

theorem layout_before_initialization_is_ignored:
  assumes "\<not> firstLayoutDone (heap s this)" and "type ctx \<noteq> initialization"
  shows "applyLayoutStrategy (Suc n) B s this ctx = Some s"
  using assms by (simp add: applyLayoutStrategy.simps)

theorem layout_before_initialization_is_ignored_witness:
  "\<not> firstLayoutDone (heap (layoutScene ''fit-content'' False) 10)
   \<and> type (newContext object_modified) \<noteq> initialization
   \<and> objects (heap (layoutScene ''fit-content'' False) 10) = [11, 12]
   \<and> applyLayoutStrategy (Suc 0) plainBase (layoutScene ''fit-content'' False) 10 (newContext object_modified)
       = Some (layoutScene ''fit-content'' False)
   \<and> map_option (\<lambda>s'. (positionsOf [11, 12] s', length (events s')))
       (applyLayoutStrategy (Suc 0) plainBase (layoutScene ''fit-content'' False) 10 (newContext object_modified))
       = Some ([(Some 0, Some 0), (Some 20, Some 0)], 0)
   \<and> map_option (\<lambda>s'. (positionsOf [11, 12] s', length (events s')))
       (applyLayoutStrategy (Suc 0) plainBase (layoutScene ''fit-content'' True) 10 (newContext object_modified))
       = Some ([(Some (- (25 / 2)), Some 0), (Some (15 / 2), Some 0)], 1)"
proof -
  have a: "\<not> firstLayoutDone (heap (layoutScene ''fit-content'' False) 10)"
    by (simp add: layoutScene_fields)
  have b: "type (newContext object_modified) \<noteq> initialization"
    by (simp add: newContext_def)
  have p: "positionsOf [11, 12] (layoutScene ''fit-content'' False) = [(Some 0, Some 0), (Some 20, Some 0)]"
          "events (layoutScene ''fit-content'' False) = []"
    by (simp_all add: positionsOf_def layoutScene_defs)
  from layout_before_initialization_is_ignored[OF a b, of 0 plainBase] a b p show ?thesis
    by (simp add: layoutScene_fields modified_run_example)
qed

lemma fixed_result:
  "getLayoutStrategyResult B s this ''fixed'' objs ctx =
     (if type ctx = initialization \<or> type ctx = imperative
      then prepareBoundingBox B s this ''fixed'' objs ctx else None)"
  by (simp add: getLayoutStrategyResult_def)

text \<open>
  Claim C4.  For a group in mode \<^verbatim>\<open>fixed\<close> whose first layout is done, the triggers
  \<^verbatim>\<open>added\<close>, \<^verbatim>\<open>removed\<close>, \<^verbatim>\<open>object_modified\<close> and \<^verbatim>\<open>layout_change\<close> give no layout
  result, and the layout procedure returns the state it was given: the declared width and
  height and the positions of the children stay as they are.  In this mode a result, when
  there is one, comes from an \<^verbatim>\<open>initialization\<close> or \<^verbatim>\<open>imperative\<close> trigger and is the
  bounding box that \<^verbatim>\<open>prepareBoundingBox\<close> computes.
\<close>

theorem fixed_layout_never_resizes:
  assumes "layout (heap s this) = ''fixed''"
      and "firstLayoutDone (heap s this)"
      and "type ctx = added \<or> type ctx = removed \<or> type ctx = object_modified \<or> type ctx = layout_change"
  shows "getLayoutStrategyResult B s this (layout (heap s this)) (objects (heap s this)) ctx = None
       \<and> applyLayoutStrategy (Suc n) B s this ctx = Some s
       \<and> (\<forall>objs c. getLayoutStrategyResult B s this ''fixed'' objs c \<noteq> None \<longrightarrow>
             (type c = initialization \<or> type c = imperative)
             \<and> getLayoutStrategyResult B s this ''fixed'' objs c = prepareBoundingBox B s this ''fixed'' objs c)"
proof (intro conjI allI impI)
  from assms(3) have t: "type ctx \<noteq> initialization" "type ctx \<noteq> imperative" by auto
  show r: "getLayoutStrategyResult B s this (layout (heap s this)) (objects (heap s this)) ctx = None"
    using assms(1) t by (simp add: fixed_result)
  show "applyLayoutStrategy (Suc n) B s this ctx = Some s"
    using r t by (simp add: applyLayoutStrategy.simps Let_def)
next
  fix objs c
  assume "getLayoutStrategyResult B s this ''fixed'' objs c \<noteq> None"
  then show "type c = initialization \<or> type c = imperative"
    by (simp add: fixed_result split: if_splits)
next
  fix objs c
  assume "getLayoutStrategyResult B s this ''fixed'' objs c \<noteq> None"
  then show "getLayoutStrategyResult B s this ''fixed'' objs c = prepareBoundingBox B s this ''fixed'' objs c"
    by (auto simp: fixed_result split: if_splits)
qed

theorem fixed_layout_never_resizes_witness:
  "layout (heap (layoutScene ''fixed'' True) 10) = ''fixed''
   \<and> firstLayoutDone (heap (layoutScene ''fixed'' True) 10)
   \<and> type ((newContext added)\<lparr>targets := [12]\<rparr>) = added
   \<and> applyLayoutStrategy (Suc 0) plainBase (layoutScene ''fixed'' True) 10 ((newContext added)\<lparr>targets := [12]\<rparr>)
       = Some (layoutScene ''fixed'' True)
   \<and> width (geom (heap (layoutScene ''fixed'' True) 10)) = Some 100
   \<and> height (geom (heap (layoutScene ''fixed'' True) 10)) = Some 100"
proof -
  have a: "layout (heap (layoutScene ''fixed'' True) 10) = ''fixed''"
    and b: "firstLayoutDone (heap (layoutScene ''fixed'' True) 10)"
    and d: "width (geom (heap (layoutScene ''fixed'' True) 10)) = Some 100"
           "height (geom (heap (layoutScene ''fixed'' True) 10)) = Some 100"
    by (simp_all add: layoutScene_defs)
  have c: "type ((newContext added)\<lparr>targets := [12]\<rparr>) = added" by (simp add: newContext_def)
  have c': "type ((newContext added)\<lparr>targets := [12]\<rparr>) = added \<or> type ((newContext added)\<lparr>targets := [12]\<rparr>) = removed
     \<or> type ((newContext added)\<lparr>targets := [12]\<rparr>) = object_modified \<or> type ((newContext added)\<lparr>targets := [12]\<rparr>) = layout_change"
    using c by simp
  from fixed_layout_never_resizes[OF a b c', of plainBase 0] a b c d show ?thesis by simp
qed

subsection \<open>The clip path\<close>




subsection \<open>The lazy strategy\<close>

lemma lazy_result:
  "getLayoutStrategyResult B s this ''fit-content-lazy'' objs ctx =
     (if type ctx = added \<and> length (targets ctx) < length objs
      then prepareBoundingBox B s this ''fit-content-lazy'' (targets ctx @ [this]) ctx
      else prepareBoundingBox B s this ''fit-content-lazy'' objs ctx)"
  by (simp add: getLayoutStrategyResult_def Let_def)

lemma prepareBoundingBox_plain:
  "type ctx \<noteq> initialization \<Longrightarrow> type ctx \<noteq> imperative \<Longrightarrow>
   prepareBoundingBox B s this l objs ctx = getObjectsBoundingBox B s this objs False"
  by (simp add: prepareBoundingBox_def)

lemma movedScene_box_added:
  "getObjectsBoundingBox plainBase (movedScene l d 12 100) 10 [12, 10] False =
     Some \<lparr>centerX = Some 30, centerY = Some 0, correctionX = None, correctionY = None,
           resWidth = Some 160, resHeight = Some 100, offsetX = Some (- 50), offsetY = Some (- 50)\<rparr>"
  by (simp add: getObjectsBoundingBox_def movedScene_def updGeom_def updObject_def
        num_defs point_defs plain_defs layoutScene_defs Let_def)

lemma movedScene_box_all:
  "getObjectsBoundingBox plainBase (movedScene l d 12 100) 10 [12, 11] False =
     Some \<lparr>centerX = Some (105 / 2), centerY = Some 0, correctionX = None, correctionY = None,
           resWidth = Some 115, resHeight = Some 10, offsetX = Some (- 5), offsetY = Some (- 5)\<rparr>"
  by (simp add: getObjectsBoundingBox_def movedScene_def updGeom_def updObject_def
        num_defs point_defs plain_defs layoutScene_defs Let_def)

text \<open>
  Claim C5, refuted as stated.  In mode \<^verbatim>\<open>fit-content-lazy\<close> the trigger
  \<^verbatim>\<open>object_modified\<close> makes the strategy resolver measure all children again: for the
  example group, declared 100 by 100, the result is the tight box of its two children,
  35 by 10.
\<close>

theorem lazy_recomputes_on_object_modified:
  "type (newContext object_modified) = object_modified
   \<and> width (geom (heap (layoutScene ''fit-content-lazy'' True) 10)) = Some 100
   \<and> height (geom (heap (layoutScene ''fit-content-lazy'' True) 10)) = Some 100
   \<and> getLayoutStrategyResult plainBase (layoutScene ''fit-content-lazy'' True) 10 ''fit-content-lazy''
        (objects (heap (layoutScene ''fit-content-lazy'' True) 10)) (newContext object_modified)
      = getObjectsBoundingBox plainBase (layoutScene ''fit-content-lazy'' True) 10 [11, 12] False
   \<and> getObjectsBoundingBox plainBase (layoutScene ''fit-content-lazy'' True) 10 [11, 12] False
      = Some \<lparr>centerX = Some (25 / 2), centerY = Some 0, correctionX = None, correctionY = None,
           resWidth = Some 35, resHeight = Some 10, offsetX = Some (- 5), offsetY = Some (- 5)\<rparr>"
proof -
  have t: "type (newContext object_modified) = object_modified" by (simp add: newContext_def)
  have "getLayoutStrategyResult plainBase (layoutScene ''fit-content-lazy'' True) 10 ''fit-content-lazy''
        [11, 12] (newContext object_modified)
      = getObjectsBoundingBox plainBase (layoutScene ''fit-content-lazy'' True) 10 [11, 12] False"
    by (simp add: lazy_result t prepareBoundingBox_plain)
  moreover have "width (geom (heap (layoutScene ''fit-content-lazy'' True) 10)) = Some 100"
    "height (geom (heap (layoutScene ''fit-content-lazy'' True) 10)) = Some 100"
    by (simp_all add: layoutScene_defs)
  ultimately show ?thesis by (simp add: t layoutScene_fields bbox_example)
qed

text \<open>
  Claim C5, amended.  In mode \<^verbatim>\<open>fit-content-lazy\<close> the strategy resolver takes the
  incremental path exactly on the trigger \<^verbatim>\<open>added\<close> with more children than targets,
  wherever the targets stand in the child list.  The result is then the bounding box of
  the targets and the group itself, and does not depend on the other children nor on
  their geometry.  On every other trigger, and on \<^verbatim>\<open>added\<close> with no more children than
  targets, the resolver hands all children to \<^verbatim>\<open>prepareBoundingBox\<close>; for
  \<^verbatim>\<open>object_modified\<close>, \<^verbatim>\<open>removed\<close>, \<^verbatim>\<open>layout_change\<close> and that case of \<^verbatim>\<open>added\<close> the
  result is the tight bounding box of all children.
\<close>

theorem lazy_layout_strategy_amended:
  "(type ctx = added \<and> length (targets ctx) < length objs \<longrightarrow>
      getLayoutStrategyResult B s this ''fit-content-lazy'' objs ctx =
        getObjectsBoundingBox B s this (targets ctx @ [this]) False)
   \<and> (type ctx = added \<and> length (targets ctx) < length objs \<and> length (targets ctx) < length objs'
        \<and> (\<forall>x\<in>set (targets ctx @ [this]). geom (heap s' x) = geom (heap s x)) \<longrightarrow>
      getLayoutStrategyResult B s' this ''fit-content-lazy'' objs' ctx =
        getLayoutStrategyResult B s this ''fit-content-lazy'' objs ctx)
   \<and> (\<not> (type ctx = added \<and> length (targets ctx) < length objs) \<longrightarrow>
      getLayoutStrategyResult B s this ''fit-content-lazy'' objs ctx =
        prepareBoundingBox B s this ''fit-content-lazy'' objs ctx)
   \<and> (type ctx = object_modified \<or> type ctx = removed \<or> type ctx = layout_change
        \<or> (type ctx = added \<and> length objs \<le> length (targets ctx)) \<longrightarrow>
      getLayoutStrategyResult B s this ''fit-content-lazy'' objs ctx =
        getObjectsBoundingBox B s this objs False)"
proof (intro conjI impI)
  assume a: "type ctx = added \<and> length (targets ctx) < length objs"
  then show "getLayoutStrategyResult B s this ''fit-content-lazy'' objs ctx =
        getObjectsBoundingBox B s this (targets ctx @ [this]) False"
    by (simp add: lazy_result prepareBoundingBox_plain)
next
  assume a: "type ctx = added \<and> length (targets ctx) < length objs \<and> length (targets ctx) < length objs'
        \<and> (\<forall>x\<in>set (targets ctx @ [this]). geom (heap s' x) = geom (heap s x))"
  then have g: "\<forall>x\<in>set ((targets ctx @ [this]) @ [this]). geom (heap s' x) = geom (heap s x)" by simp
  have 1: "getLayoutStrategyResult B s this ''fit-content-lazy'' objs ctx =
        getObjectsBoundingBox B s this (targets ctx @ [this]) False"
    using a by (simp add: lazy_result prepareBoundingBox_plain)
  have 2: "getLayoutStrategyResult B s' this ''fit-content-lazy'' objs' ctx =
        getObjectsBoundingBox B s' this (targets ctx @ [this]) False"
    using a by (simp add: lazy_result prepareBoundingBox_plain)
  show "getLayoutStrategyResult B s' this ''fit-content-lazy'' objs' ctx =
        getLayoutStrategyResult B s this ''fit-content-lazy'' objs ctx"
    unfolding 1 2 using g by (rule getObjectsBoundingBox_cong)
next
  assume "\<not> (type ctx = added \<and> length (targets ctx) < length objs)"
  then show "getLayoutStrategyResult B s this ''fit-content-lazy'' objs ctx =
        prepareBoundingBox B s this ''fit-content-lazy'' objs ctx"
    by (auto simp: lazy_result)
next
  assume "type ctx = object_modified \<or> type ctx = removed \<or> type ctx = layout_change
        \<or> (type ctx = added \<and> length objs \<le> length (targets ctx))"
  then show "getLayoutStrategyResult B s this ''fit-content-lazy'' objs ctx =
        getObjectsBoundingBox B s this objs False"
    by (auto simp: lazy_result prepareBoundingBox_plain)
qed

theorem lazy_layout_strategy_amended_witness:
  "getLayoutStrategyResult plainBase (movedScene ''fit-content-lazy'' True 12 100) 10 ''fit-content-lazy''
      [12, 11] ((newContext added)\<lparr>targets := [12]\<rparr>)
     = Some \<lparr>centerX = Some 30, centerY = Some 0, correctionX = None, correctionY = None,
           resWidth = Some 160, resHeight = Some 100, offsetX = Some (- 50), offsetY = Some (- 50)\<rparr>
   \<and> getLayoutStrategyResult plainBase
        (updGeom (movedScene ''fit-content-lazy'' True 12 100) 11 (\<lambda>g. g\<lparr>left := Some 1000\<rparr>)) 10
        ''fit-content-lazy'' [11, 11, 12] ((newContext added)\<lparr>targets := [12]\<rparr>)
     = getLayoutStrategyResult plainBase (movedScene ''fit-content-lazy'' True 12 100) 10 ''fit-content-lazy''
        [12, 11] ((newContext added)\<lparr>targets := [12]\<rparr>)
   \<and> getLayoutStrategyResult plainBase (movedScene ''fit-content-lazy'' True 12 100) 10 ''fit-content-lazy''
      [12, 11] (newContext removed)
     = Some \<lparr>centerX = Some (105 / 2), centerY = Some 0, correctionX = None, correctionY = None,
           resWidth = Some 115, resHeight = Some 10, offsetX = Some (- 5), offsetY = Some (- 5)\<rparr>"
proof -
  let ?ctx = "(newContext added)\<lparr>targets := [12]\<rparr>"
  let ?s = "movedScene ''fit-content-lazy'' True 12 100"
  let ?s' = "updGeom ?s 11 (\<lambda>g. g\<lparr>left := Some 1000\<rparr>)"
  have t: "type ?ctx = added" "targets ?ctx = [12]" "type (newContext removed) = removed"
    by (simp_all add: newContext_def)
  note T = lazy_layout_strategy_amended[of ?ctx "[12, 11]" plainBase ?s 10 "[11, 11, 12]" ?s']
  note U = lazy_layout_strategy_amended[of "newContext removed" "[12, 11]" plainBase ?s 10 "[11, 11, 12]" ?s']
  have g: "\<forall>x\<in>set (targets ?ctx @ [10]). geom (heap ?s' x) = geom (heap ?s x)"
    by (simp add: t updGeom_heap)
  from T t have 1: "getLayoutStrategyResult plainBase ?s 10 ''fit-content-lazy'' [12, 11] ?ctx =
        getObjectsBoundingBox plainBase ?s 10 (targets ?ctx @ [10]) False" by simp
  from T t g have 2: "getLayoutStrategyResult plainBase ?s' 10 ''fit-content-lazy'' [11, 11, 12] ?ctx =
        getLayoutStrategyResult plainBase ?s 10 ''fit-content-lazy'' [12, 11] ?ctx" by simp
  from U t have 3: "getLayoutStrategyResult plainBase ?s 10 ''fit-content-lazy'' [12, 11] (newContext removed) =
        getObjectsBoundingBox plainBase ?s 10 [12, 11] False" by blast
  show ?thesis
    unfolding 2 unfolding 1 3 by (simp add: t movedScene_box_added movedScene_box_all)
qed

subsection \<open>The bounding box of a list of objects\<close>

lemma Min_insert2:
  fixes a b :: real
  assumes "finite A"
  shows "Min (insert a (insert b A)) = Min (insert (min a b) A)"
proof (cases "A = {}")
  case True
  then show ?thesis by simp
next
  case False
  with assms show ?thesis by (simp add: min.assoc)
qed

lemma Max_insert2:
  fixes a b :: real
  assumes "finite A"
  shows "Max (insert a (insert b A)) = Max (insert (max a b) A)"
proof (cases "A = {}")
  case True
  then show ?thesis by simp
next
  case False
  with assms show ?thesis by (simp add: max.assoc)
qed

lemma num_ops [simp]:
  "nadd (Some a) (Some b) = Some (a + b)"
  "nsub (Some a) (Some b) = Some (a - b)"
  "nmul (Some a) (Some b) = Some (a * b)"
  "nmin (Some a) (Some b) = Some (min a b)"
  "nmax (Some a) (Some b) = Some (max a b)"
  "nabs (Some a) = Some \<bar>a\<bar>"
  "nhalf (Some a) = Some (a / 2)"
  by (simp_all add: num_defs)

text \<open>The two corners that one child contributes.\<close>

lemma child_corners:
  assumes c: "getRelativeCenterPoint B ob (geom (heap s ob)) = (Some cx, Some cy)"
      and d: "getTransformedDimensions B ob (geom (heap s ob)) None = (Some w, Some h)"
      and a: "truthy (angle (geom (heap s ob))) \<longrightarrow>
                sin' B (degreesToRadians B (angle (geom (heap s ob)))) = Some sn
                \<and> cos' B (degreesToRadians B (angle (geom (heap s ob)))) = Some cs"
      and r: "r = (if truthy (angle (geom (heap s ob)))
                   then rotatedHalfExtent (w / 2) (h / 2) sn cs else (w / 2, h / 2))"
  shows "getObjectsBoundingBox_forEach B s (ob # rest) i mm =
           getObjectsBoundingBox_forEach B s rest (Suc i)
             (if i = 0 then
                ((Some (min (cx - fst r) (cx + fst r)), Some (min (cy - snd r) (cy + snd r))),
                 (Some (max (cx - fst r) (cx + fst r)), Some (max (cy - snd r) (cy + snd r))))
              else
                ((nmin (nmin (fst (fst mm)) (Some (cx - fst r))) (Some (cx + fst r)),
                  nmin (nmin (snd (fst mm)) (Some (cy - snd r))) (Some (cy + snd r))),
                 (nmax (nmax (fst (snd mm)) (Some (cx - fst r))) (Some (cx + fst r)),
                  nmax (nmax (snd (snd mm)) (Some (cy - snd r))) (Some (cy + snd r)))))"
proof (cases "truthy (angle (geom (heap s ob)))")
  case True
  with a r c d show ?thesis
    by (simp add: Let_def point_defs rotatedHalfExtent_def)
next
  case False
  with r c d show ?thesis
    by (simp add: Let_def point_defs)
qed

lemma forEach_box:
  assumes "\<forall>ob\<in>set objs.
             getRelativeCenterPoint B ob (geom (heap s ob)) = (Some (cx ob), Some (cy ob))
             \<and> getTransformedDimensions B ob (geom (heap s ob)) None = (Some (w ob), Some (h ob))
             \<and> (truthy (angle (geom (heap s ob))) \<longrightarrow>
                  sin' B (degreesToRadians B (angle (geom (heap s ob)))) = Some (sn ob)
                  \<and> cos' B (degreesToRadians B (angle (geom (heap s ob)))) = Some (cs ob))"
      and "\<forall>ob. r ob = (if truthy (angle (geom (heap s ob)))
                         then rotatedHalfExtent (w ob / 2) (h ob / 2) (sn ob) (cs ob)
                         else (w ob / 2, h ob / 2))"
  shows "getObjectsBoundingBox_forEach B s objs (Suc i) ((Some mnx, Some mny), (Some mxx, Some mxy)) =
           ((Some (Min (insert mnx ((\<lambda>ob. min (cx ob - fst (r ob)) (cx ob + fst (r ob))) ` set objs))),
             Some (Min (insert mny ((\<lambda>ob. min (cy ob - snd (r ob)) (cy ob + snd (r ob))) ` set objs)))),
            (Some (Max (insert mxx ((\<lambda>ob. max (cx ob - fst (r ob)) (cx ob + fst (r ob))) ` set objs))),
             Some (Max (insert mxy ((\<lambda>ob. max (cy ob - snd (r ob)) (cy ob + snd (r ob))) ` set objs)))))"
  using assms(1)
proof (induction objs arbitrary: i mnx mny mxx mxy)
  case Nil
  then show ?case by simp
next
  case (Cons ob rest)
  have ob: "getRelativeCenterPoint B ob (geom (heap s ob)) = (Some (cx ob), Some (cy ob))"
      "getTransformedDimensions B ob (geom (heap s ob)) None = (Some (w ob), Some (h ob))"
      "truthy (angle (geom (heap s ob))) \<longrightarrow>
                  sin' B (degreesToRadians B (angle (geom (heap s ob)))) = Some (sn ob)
                  \<and> cos' B (degreesToRadians B (angle (geom (heap s ob)))) = Some (cs ob)"
    using Cons.prems by simp_all
  have rr: "r ob = (if truthy (angle (geom (heap s ob)))
                         then rotatedHalfExtent (w ob / 2) (h ob / 2) (sn ob) (cs ob)
                         else (w ob / 2, h ob / 2))"
    using assms(2) by blast
  have rest: "\<forall>ob\<in>set rest.
             getRelativeCenterPoint B ob (geom (heap s ob)) = (Some (cx ob), Some (cy ob))
             \<and> getTransformedDimensions B ob (geom (heap s ob)) None = (Some (w ob), Some (h ob))
             \<and> (truthy (angle (geom (heap s ob))) \<longrightarrow>
                  sin' B (degreesToRadians B (angle (geom (heap s ob)))) = Some (sn ob)
                  \<and> cos' B (degreesToRadians B (angle (geom (heap s ob)))) = Some (cs ob))"
    using Cons.prems by simp
  have f: "finite (f ` set rest)" for f :: "nat \<Rightarrow> real" by simp
  show ?case
    unfolding child_corners[OF ob rr]
    by (simp add: Cons.IH[OF rest] Min_insert2[OF f] Max_insert2[OF f] min.assoc max.assoc)
qed

lemma forEach_box0:
  assumes "\<forall>ob\<in>set objs.
             getRelativeCenterPoint B ob (geom (heap s ob)) = (Some (cx ob), Some (cy ob))
             \<and> getTransformedDimensions B ob (geom (heap s ob)) None = (Some (w ob), Some (h ob))
             \<and> (truthy (angle (geom (heap s ob))) \<longrightarrow>
                  sin' B (degreesToRadians B (angle (geom (heap s ob)))) = Some (sn ob)
                  \<and> cos' B (degreesToRadians B (angle (geom (heap s ob)))) = Some (cs ob))"
      and "\<forall>ob. r ob = (if truthy (angle (geom (heap s ob)))
                         then rotatedHalfExtent (w ob / 2) (h ob / 2) (sn ob) (cs ob)
                         else (w ob / 2, h ob / 2))"
      and "objs \<noteq> []"
  shows "getObjectsBoundingBox_forEach B s objs 0 mm =
           ((Some (Min ((\<lambda>ob. min (cx ob - fst (r ob)) (cx ob + fst (r ob))) ` set objs)),
             Some (Min ((\<lambda>ob. min (cy ob - snd (r ob)) (cy ob + snd (r ob))) ` set objs))),
            (Some (Max ((\<lambda>ob. max (cx ob - fst (r ob)) (cx ob + fst (r ob))) ` set objs)),
             Some (Max ((\<lambda>ob. max (cy ob - snd (r ob)) (cy ob + snd (r ob))) ` set objs))))"
proof -
  from assms(3) obtain ob rest where objs: "objs = ob # rest" by (cases objs) auto
  have ob: "getRelativeCenterPoint B ob (geom (heap s ob)) = (Some (cx ob), Some (cy ob))"
      "getTransformedDimensions B ob (geom (heap s ob)) None = (Some (w ob), Some (h ob))"
      "truthy (angle (geom (heap s ob))) \<longrightarrow>
                  sin' B (degreesToRadians B (angle (geom (heap s ob)))) = Some (sn ob)
                  \<and> cos' B (degreesToRadians B (angle (geom (heap s ob)))) = Some (cs ob)"
    using assms(1) objs by simp_all
  have rr: "r ob = (if truthy (angle (geom (heap s ob)))
                         then rotatedHalfExtent (w ob / 2) (h ob / 2) (sn ob) (cs ob)
                         else (w ob / 2, h ob / 2))"
    using assms(2) by blast
  have rest: "\<forall>ob\<in>set rest.
             getRelativeCenterPoint B ob (geom (heap s ob)) = (Some (cx ob), Some (cy ob))
             \<and> getTransformedDimensions B ob (geom (heap s ob)) None = (Some (w ob), Some (h ob))
             \<and> (truthy (angle (geom (heap s ob))) \<longrightarrow>
                  sin' B (degreesToRadians B (angle (geom (heap s ob)))) = Some (sn ob)
                  \<and> cos' B (degreesToRadians B (angle (geom (heap s ob)))) = Some (cs ob))"
    using assms(1) objs by simp
  show ?thesis
    unfolding objs child_corners[OF ob rr]
    by (simp add: forEach_box[OF rest assms(2)])
qed

text \<open>
  Claim C6.  \<^verbatim>\<open>getObjectsBoundingBox\<close> gives no box for the empty list.  For a
  non-empty list whose children have numeric centres and dimensions, it takes the centre
  of each child and half its transformed dimensions, replaces the half-extent of a rotated
  child by the one of the specification, and returns the box spanned by the least and the
  greatest corners: the size is the difference of the two, the centre their midpoint, or
  half the size when the offset is to be ignored, and centre and offset are sent through
  the group's own matrix.  Numbers are exact here.
\<close>

theorem getObjectsBoundingBox_spec:
  assumes "\<forall>ob\<in>set objs.
             getRelativeCenterPoint B ob (geom (heap s ob)) = (Some (cx ob), Some (cy ob))
             \<and> getTransformedDimensions B ob (geom (heap s ob)) None = (Some (w ob), Some (h ob))
             \<and> (truthy (angle (geom (heap s ob))) \<longrightarrow>
                  sin' B (degreesToRadians B (angle (geom (heap s ob)))) = Some (sn ob)
                  \<and> cos' B (degreesToRadians B (angle (geom (heap s ob)))) = Some (cs ob))"
      and "\<forall>ob. r ob = (if truthy (angle (geom (heap s ob)))
                         then rotatedHalfExtent (w ob / 2) (h ob / 2) (sn ob) (cs ob)
                         else (w ob / 2, h ob / 2))"
      and "objs \<noteq> []"
  shows "getObjectsBoundingBox B s this [] ignoreOffset = None
       \<and> (let minX = Min ((\<lambda>ob. min (cx ob - fst (r ob)) (cx ob + fst (r ob))) ` set objs);
               minY = Min ((\<lambda>ob. min (cy ob - snd (r ob)) (cy ob + snd (r ob))) ` set objs);
               maxX = Max ((\<lambda>ob. max (cx ob - fst (r ob)) (cx ob + fst (r ob))) ` set objs);
               maxY = Max ((\<lambda>ob. max (cy ob - snd (r ob)) (cy ob + snd (r ob))) ` set objs);
               M = calcOwnMatrix B this (geom (heap s this));
               relativeCenter =
                 (if ignoreOffset then (Some ((maxX - minX) / 2), Some ((maxY - minY) / 2))
                  else (Some ((minX + maxX) / 2), Some ((minY + maxY) / 2)));
               offset = transformPoint B (Some minX, Some minY) M False;
               center = transformPoint B relativeCenter M False
           in getObjectsBoundingBox B s this objs ignoreOffset =
                Some \<lparr>centerX = fst center, centerY = snd center, correctionX = None, correctionY = None,
                      resWidth = Some (maxX - minX), resHeight = Some (maxY - minY),
                      offsetX = fst offset, offsetY = snd offset\<rparr>)"
proof
  show "getObjectsBoundingBox B s this [] ignoreOffset = None"
    by (simp add: getObjectsBoundingBox_def)
  show "let minX = Min ((\<lambda>ob. min (cx ob - fst (r ob)) (cx ob + fst (r ob))) ` set objs);
               minY = Min ((\<lambda>ob. min (cy ob - snd (r ob)) (cy ob + snd (r ob))) ` set objs);
               maxX = Max ((\<lambda>ob. max (cx ob - fst (r ob)) (cx ob + fst (r ob))) ` set objs);
               maxY = Max ((\<lambda>ob. max (cy ob - snd (r ob)) (cy ob + snd (r ob))) ` set objs);
               M = calcOwnMatrix B this (geom (heap s this));
               relativeCenter =
                 (if ignoreOffset then (Some ((maxX - minX) / 2), Some ((maxY - minY) / 2))
                  else (Some ((minX + maxX) / 2), Some ((minY + maxY) / 2)));
               offset = transformPoint B (Some minX, Some minY) M False;
               center = transformPoint B relativeCenter M False
           in getObjectsBoundingBox B s this objs ignoreOffset =
                Some \<lparr>centerX = fst center, centerY = snd center, correctionX = None, correctionY = None,
                      resWidth = Some (maxX - minX), resHeight = Some (maxY - minY),
                      offsetX = fst offset, offsetY = snd offset\<rparr>"
    using assms(3)
    by (simp add: getObjectsBoundingBox_def forEach_box0[OF assms] Let_def point_defs)
qed

theorem getObjectsBoundingBox_spec_witness:
  "getObjectsBoundingBox plainBase (layoutScene ''fit-content'' True) 10 [] False = None
   \<and> getObjectsBoundingBox plainBase (layoutScene ''fit-content'' True) 10 [11, 12] False =
       Some \<lparr>centerX = Some (25 / 2), centerY = Some 0, correctionX = None, correctionY = None,
             resWidth = Some 35, resHeight = Some 10, offsetX = Some (- 5), offsetY = Some (- 5)\<rparr>
   \<and> getObjectsBoundingBox plainBase (layoutScene ''fit-content'' True) 10 [11, 12] True =
       Some \<lparr>centerX = Some (35 / 2), centerY = Some 5, correctionX = None, correctionY = None,
             resWidth = Some 35, resHeight = Some 10, offsetX = Some (- 5), offsetY = Some (- 5)\<rparr>"
proof -
  let ?s = "layoutScene ''fit-content'' True"
  let ?cx = "\<lambda>ob::nat. if ob = 12 then 20 else (0::real)"
  let ?cy = "\<lambda>ob::nat. (0::real)"
  let ?w = "\<lambda>ob::nat. (10::real)"
  let ?h = "\<lambda>ob::nat. if ob = 12 then 20 else (10::real)"
  let ?sn = "\<lambda>ob::nat. (1::real)"
  let ?cs = "\<lambda>ob::nat. (0::real)"
  let ?r = "\<lambda>ob. if truthy (angle (geom (heap ?s ob)))
                  then rotatedHalfExtent (?w ob / 2) (?h ob / 2) (?sn ob) (?cs ob)
                  else (?w ob / 2, ?h ob / 2)"
  have a: "\<forall>ob\<in>set [11, 12].
             getRelativeCenterPoint plainBase ob (geom (heap ?s ob)) = (Some (?cx ob), Some (?cy ob))
             \<and> getTransformedDimensions plainBase ob (geom (heap ?s ob)) None = (Some (?w ob), Some (?h ob))
             \<and> (truthy (angle (geom (heap ?s ob))) \<longrightarrow>
                  sin' plainBase (degreesToRadians plainBase (angle (geom (heap ?s ob)))) = Some (?sn ob)
                  \<and> cos' plainBase (degreesToRadians plainBase (angle (geom (heap ?s ob)))) = Some (?cs ob))"
    by (simp add: plain_defs layoutScene_defs truthy_def)
  have b: "\<forall>ob. ?r ob = (if truthy (angle (geom (heap ?s ob)))
                  then rotatedHalfExtent (?w ob / 2) (?h ob / 2) (?sn ob) (?cs ob)
                  else (?w ob / 2, ?h ob / 2))"
    by simp
  have c: "[11, 12] \<noteq> ([]::nat list)" by simp
  have r: "?r 11 = (5, 5)" "?r 12 = (10, 5)"
    by (simp_all add: layoutScene_defs truthy_def rotatedHalfExtent_def)
  have M: "calcOwnMatrix plainBase 10 (geom (heap ?s 10)) = translation (Some 0) (Some 0)"
    by (simp add: plain_defs layoutScene_defs)
  have tp: "transformPoint plainBase (Some x, Some y) (translation (Some 0) (Some 0)) False = (Some x, Some y)" for x y
    by (simp add: plain_defs)
  note T = getObjectsBoundingBox_spec[of "[11, 12]" plainBase ?s ?cx ?cy ?w ?h ?sn ?cs ?r, OF a b c, of 10]
  show ?thesis
  proof (intro conjI)
    show "getObjectsBoundingBox plainBase ?s 10 [] False = None"
      using T[of False] by blast
    have "getObjectsBoundingBox plainBase ?s 10 [11, 12] False =
       Some \<lparr>centerX = Some (25 / 2), centerY = Some 0, correctionX = None, correctionY = None,
             resWidth = Some 35, resHeight = Some 10, offsetX = Some (- 5), offsetY = Some (- 5)\<rparr>"
      using T[of False, THEN conjunct2] unfolding Let_def M
      by (simp add: r tp del: One_nat_def)
    then show "getObjectsBoundingBox plainBase ?s 10 [11, 12] False =
       Some \<lparr>centerX = Some (25 / 2), centerY = Some 0, correctionX = None, correctionY = None,
             resWidth = Some 35, resHeight = Some 10, offsetX = Some (- 5), offsetY = Some (- 5)\<rparr>" .
    show "getObjectsBoundingBox plainBase ?s 10 [11, 12] True =
       Some \<lparr>centerX = Some (35 / 2), centerY = Some 5, correctionX = None, correctionY = None,
             resWidth = Some 35, resHeight = Some 10, offsetX = Some (- 5), offsetY = Some (- 5)\<rparr>"
      using T[of True, THEN conjunct2] unfolding Let_def M
      by (simp add: r tp del: One_nat_def)
  qed
qed

section \<open>What the setters leave alone\<close>

lemma forEach_invariant:
  assumes "forEach xs f s = Some s'" and "P s"
      and "\<And>x t t'. x \<in> set xs \<Longrightarrow> f x t = Some t' \<Longrightarrow> P t \<Longrightarrow> P t'"
  shows "P s'"
  using assms
proof (induction xs arbitrary: s)
  case Nil
  then show ?case by simp
next
  case (Cons a xs)
  from Cons.prems(1) obtain t where t: "f a s = Some t" "forEach xs f t = Some s'"
    by (auto split: option.splits)
  have "P t" using Cons.prems(3)[of a s t] t(1) Cons.prems(2) by simp
  then show ?case using Cons.IH[OF t(2)] Cons.prems(3) by auto
qed

text \<open>\<^verbatim>\<open>_set('canvas', value)\<close> writes the canvas of objects and nothing else.\<close>

lemma set_canvas_frame:
  assumes "set_canvas n s x v = Some s'"
  shows "(\<forall>y. \<exists>c. heap s' y = (heap s y)\<lparr>canvas := c\<rparr> \<and> (c = v \<or> c = canvas (heap s y)))
         \<and> canvases s' = canvases s \<and> events s' = events s"
  using assms
proof (induction n arbitrary: s x s')
  case 0
  then show ?case by (simp add: set_canvas.simps)
next
  case (Suc n)
  let ?P = "\<lambda>s0 t. (\<forall>y. \<exists>c. heap t y = (heap s0 y)\<lparr>canvas := c\<rparr> \<and> (c = v \<or> c = canvas (heap s0 y)))
         \<and> canvases t = canvases s0 \<and> events t = events s0"
  let ?s1 = "updObject s x (\<lambda>ob. ob\<lparr>canvas := v\<rparr>)"
  have p1: "?P s ?s1"
  proof (intro conjI allI)
    fix y
    show "\<exists>c. heap ?s1 y = (heap s y)\<lparr>canvas := c\<rparr> \<and> (c = v \<or> c = canvas (heap s y))"
    proof (cases "y = x")
      case True
      then show ?thesis by (intro exI[of _ v]) (simp add: updObject_def)
    next
      case False
      then show ?thesis by (intro exI[of _ "canvas (heap s y)"]) (simp add: updObject_def)
    qed
  qed (simp_all add: updObject_def)
  show ?case
  proof (cases "canvas (heap s x) \<noteq> v")
    case False
    with Suc.prems have "s' = ?s1" by (simp add: set_canvas.simps Let_def)
    with p1 show ?thesis by simp
  next
    case True
    with Suc.prems have fe: "forEach (objects (heap ?s1 x)) (\<lambda>object st. set_canvas n st object v) ?s1 = Some s'"
      by (simp add: set_canvas.simps Let_def)
    have step: "\<And>y t t'. y \<in> set (objects (heap ?s1 x)) \<Longrightarrow> set_canvas n t y v = Some t' \<Longrightarrow> ?P s t \<Longrightarrow> ?P s t'"
    proof -
      fix y t t'
      assume a: "set_canvas n t y v = Some t'" and b: "?P s t"
      have c: "?P t t'" using Suc.IH[OF a] .
      show "?P s t'"
      proof (intro conjI allI)
        fix z
        from b obtain c1 where c1: "heap t z = (heap s z)\<lparr>canvas := c1\<rparr>" "c1 = v \<or> c1 = canvas (heap s z)" by blast
        from c obtain c2 where c2: "heap t' z = (heap t z)\<lparr>canvas := c2\<rparr>" "c2 = v \<or> c2 = canvas (heap t z)" by blast
        have "heap t' z = (heap s z)\<lparr>canvas := c2\<rparr>" using c1(1) c2(1) by simp
        moreover have "c2 = v \<or> c2 = canvas (heap s z)" using c1 c2(2) by auto
        ultimately show "\<exists>c. heap t' z = (heap s z)\<lparr>canvas := c\<rparr> \<and> (c = v \<or> c = canvas (heap s z))" by blast
      next
        show "canvases t' = canvases s" using b c by simp
        show "events t' = events s" using b c by simp
      qed
    qed
    show ?thesis by (rule forEach_invariant[where P="?P s", OF fe p1 step])
  qed
qed

lemma set_canvas_field:
  assumes "set_canvas n s x v = Some s'" and "\<And>ob c. f (ob\<lparr>canvas := c\<rparr>) = f ob"
  shows "f (heap s' y) = f (heap s y)"
proof -
  from set_canvas_frame[OF assms(1)] obtain c where "heap s' y = (heap s y)\<lparr>canvas := c\<rparr>" by blast
  then show ?thesis by (simp add: assms(2))
qed

lemma set_canvas_canvas:
  assumes "set_canvas n s x v = Some s'" and "canvas (heap s y) = v"
  shows "canvas (heap s' y) = v"
proof -
  from set_canvas_frame[OF assms(1)] obtain c where "heap s' y = (heap s y)\<lparr>canvas := c\<rparr>" "c = v \<or> c = canvas (heap s y)" by blast
  then show ?thesis using assms(2) by auto
qed

lemma set_canvas_rest:
  assumes "set_canvas n s x v = Some s'"
  shows "canvases s' = canvases s" "events s' = events s"
  using set_canvas_frame[OF assms] by simp_all

section \<open>Properties of the active-object collection\<close>

lemma splice1_indexOf: "0 \<le> indexOf xs x \<Longrightarrow> splice1 xs (indexOf xs x) = remove1 x xs"
proof (induction xs)
  case Nil
  then show ?case by simp
next
  case (Cons y ys)
  show ?case
  proof (cases "y = x")
    case True
    then show ?thesis by (simp add: splice1_def)
  next
    case False
    with Cons.prems have ne: "indexOf ys x \<noteq> - 1" by (auto simp: Let_def split: if_splits)
    with indexOf_ge[of ys x] have ge: "0 \<le> indexOf ys x" by simp
    have "nat (indexOf ys x + 1) = Suc (nat (indexOf ys x))" using ge by simp
    with Cons.IH[OF ge] False ne show ?thesis by (simp add: splice1_def Let_def)
  qed
qed

lemma deselect_active:
  "activeObjects (heap (objectSelectionMonitor s this False ob) this) = remove1 ob (activeObjects (heap s this))"
proof (cases "ob \<in> set (activeObjects (heap s this))")
  case True
  then have ge: "0 \<le> indexOf (activeObjects (heap s this)) ob" by (simp add: indexOf_in)
  moreover from True have "activeObjects (heap s this) \<noteq> []" by auto
  ultimately show ?thesis
    by (simp add: objectSelectionMonitor_def Let_def updObject_def splice1_indexOf)
next
  case False
  then have "indexOf (activeObjects (heap s this)) ob = - 1" by (simp add: indexOf_notin)
  with False show ?thesis
    by (simp add: objectSelectionMonitor_def Let_def remove1_idem)
qed

lemma exitGroup'_active:
  "activeObjects (heap (exitGroup' B s this ob rpt) this) = remove1 ob (activeObjects (heap s this))"
proof -
  let ?s1 = "updObject s ob (\<lambda>o'. o'\<lparr>group := None\<rparr>)"
  let ?s2 = "if \<not> rpt
                then updGeom ?s1 ob
                       (\<lambda>g. applyTransformToObject B ob g
                               (multiplyTransformMatrices B (calcTransformMatrix B ?s1 this)
                                                            (calcTransformMatrix B ?s1 ob)))
                else ?s1"
  let ?s3 = "watchObject ?s2 this False ob"
  have a: "activeObjects (heap ?s3 this) = activeObjects (heap s this)"
    by (simp add: watchObject_def updObject_def updGeom_def)
  show ?thesis
  proof (cases "ob \<in> set (activeObjects (heap s this))")
    case True
    then have ge: "0 \<le> indexOf (activeObjects (heap s this)) ob" by (simp add: indexOf_in)
    moreover from True have "activeObjects (heap s this) \<noteq> []" by auto
    ultimately show ?thesis
      unfolding exitGroup'_def Let_def a
      by (simp add: updObject_heap a splice1_indexOf)
  next
    case False
    then have "indexOf (activeObjects (heap s this)) ob = - 1" by (simp add: indexOf_notin)
    with False show ?thesis
      unfolding exitGroup'_def Let_def a
      by (simp add: a remove1_idem)
  qed
qed

lemma enterGroup'_active:
  assumes e: "enterGroup' n B s this ob rpt = Some s'"
  shows "activeObjects (heap s' this) = activeObjects (heap s this)
         \<or> activeObjects (heap s' this) = activeObjects (heap s this) @ [ob]"
    and "canvas (heap s this) = Some c \<Longrightarrow> activeObject (canvases s c) = Some ob \<Longrightarrow>
         activeObjects (heap s' this) = activeObjects (heap s this) @ [ob]"
proof -
  let ?s1 = "if rpt
                then updGeom s ob
                       (\<lambda>g. applyTransformToObject B ob g
                               (multiplyTransformMatrices B (invertTransform B (calcTransformMatrix B s this))
                                                            (calcTransformMatrix B s ob)))
                else s"
  let ?s2 = "updObject ?s1 ob (\<lambda>o'. o'\<lparr>group := Some this\<rparr>)"
  from e obtain s3 where s3: "set_canvas n ?s2 ob (canvas (heap ?s2 this)) = Some s3"
    by (auto simp: enterGroup'_def Let_def split: Option.bind_splits)
  let ?s4 = "if interactive (heap s3 this) then watchObject s3 this True ob else s3"
  let ?act = "case canvas (heap ?s4 this) of None \<Rightarrow> None | Some c \<Rightarrow> activeObject (canvases ?s4 c)"
  let ?pushed = "updObject ?s4 this (\<lambda>o'. o'\<lparr>activeObjects := activeObjects o' @ [ob]\<rparr>)"
  have e': "(case ?act of None \<Rightarrow> Some ?s4
              | Some a \<Rightarrow> if a = ob then Some ?pushed
                  else do { d \<leftarrow> isDescendantOf n (heap ?s4) ob (Obj a);
                            Some (if d then ?pushed else ?s4) }) = Some s'"
    using e s3 by (simp add: enterGroup'_def Let_def)
  have a2: "activeObjects (heap ?s2 this) = activeObjects (heap s this)"
    by (simp add: updObject_def updGeom_def)
  have a3: "activeObjects (heap s3 this) = activeObjects (heap s this)"
    using set_canvas_field[OF s3, of activeObjects this] a2 by simp
  have a4: "activeObjects (heap ?s4 this) = activeObjects (heap s this)"
    using a3 by (auto simp: watchObject_def updObject_def)
  have ap: "activeObjects (heap ?pushed this) = activeObjects (heap s this) @ [ob]"
    using a4 by (simp add: updObject_def)
  show "activeObjects (heap s' this) = activeObjects (heap s this)
         \<or> activeObjects (heap s' this) = activeObjects (heap s this) @ [ob]"
    using e' a4 ap by (auto split: option.splits if_splits Option.bind_splits)
  assume c: "canvas (heap s this) = Some c" and act: "activeObject (canvases s c) = Some ob"
  have c2: "canvas (heap ?s2 this) = Some c" using c by (auto simp: updObject_def updGeom_def)
  have c3: "canvas (heap s3 this) = Some c" using set_canvas_canvas[OF s3, of this] c2 by simp
  have c4: "canvas (heap ?s4 this) = Some c" using c3 by (auto simp: watchObject_def updObject_def)
  have cs: "canvases ?s4 = canvases s"
    using set_canvas_rest(1)[OF s3] by (simp add: watchObject_def)
  have "?act = Some ob" using c4 cs act by simp
  with e' have "s' = ?pushed" by simp
  then show "activeObjects (heap s' this) = activeObjects (heap s this) @ [ob]" using ap by simp
qed

text \<open>
  Claim C10.  The active-object collection of a group is a plain list.  The handler of
  \<^verbatim>\<open>selected\<close> appends the target and marks the group dirty, whatever the list holds, so
  two selections in a row leave the target in it twice.  The handler of \<^verbatim>\<open>deselected\<close>
  and \<^verbatim>\<open>_exitGroup\<close> take out the first occurrence only; a deselection of an object that
  is not in the list changes nothing, the dirty flag included, and one of an object that
  is in the list sets the flag.  \<^verbatim>\<open>_enterGroup\<close> appends the entering object when it is
  the active object of the group's canvas, again without looking at the list.
\<close>

theorem active_objects_unguarded:
  "activeObjects (heap (objectSelectionMonitor s this True ob) this) = activeObjects (heap s this) @ [ob]
   \<and> dirty (heap (objectSelectionMonitor s this True ob) this)
   \<and> activeObjects (heap (objectSelectionMonitor (objectSelectionMonitor s this True ob) this True ob) this)
       = activeObjects (heap s this) @ [ob, ob]
   \<and> activeObjects (heap (objectSelectionMonitor s this False ob) this)
       = remove1 ob (activeObjects (heap s this))
   \<and> (ob \<notin> set (activeObjects (heap s this)) \<longrightarrow> objectSelectionMonitor s this False ob = s)
   \<and> (ob \<in> set (activeObjects (heap s this)) \<longrightarrow> dirty (heap (objectSelectionMonitor s this False ob) this))
   \<and> activeObjects (heap (exitGroup' B s this ob rpt) this) = remove1 ob (activeObjects (heap s this))
   \<and> (\<forall>s' c. enterGroup' n B s this ob rpt = Some s' \<and> canvas (heap s this) = Some c
               \<and> activeObject (canvases s c) = Some ob \<longrightarrow>
         activeObjects (heap s' this) = activeObjects (heap s this) @ [ob])"
proof (intro conjI allI impI)
  show "activeObjects (heap (objectSelectionMonitor s this True ob) this) = activeObjects (heap s this) @ [ob]"
    by (simp add: objectSelectionMonitor_def updObject_def)
  show "dirty (heap (objectSelectionMonitor s this True ob) this)"
    by (simp add: objectSelectionMonitor_def updObject_def)
  show "activeObjects (heap (objectSelectionMonitor (objectSelectionMonitor s this True ob) this True ob) this)
       = activeObjects (heap s this) @ [ob, ob]"
    by (simp add: objectSelectionMonitor_def updObject_def)
  show "activeObjects (heap (objectSelectionMonitor s this False ob) this)
       = remove1 ob (activeObjects (heap s this))"
    by (rule deselect_active)
  show "activeObjects (heap (exitGroup' B s this ob rpt) this) = remove1 ob (activeObjects (heap s this))"
    by (rule exitGroup'_active)
next
  assume "ob \<notin> set (activeObjects (heap s this))"
  then have "indexOf (activeObjects (heap s this)) ob = - 1" by (simp add: indexOf_notin)
  then show "objectSelectionMonitor s this False ob = s"
    by (simp add: objectSelectionMonitor_def Let_def)
next
  assume a: "ob \<in> set (activeObjects (heap s this))"
  then have "0 \<le> indexOf (activeObjects (heap s this)) ob" by (simp add: indexOf_in)
  moreover from a have "activeObjects (heap s this) \<noteq> []" by auto
  ultimately show "dirty (heap (objectSelectionMonitor s this False ob) this)"
    by (simp add: objectSelectionMonitor_def Let_def updObject_def)
next
  fix s' c
  assume "enterGroup' n B s this ob rpt = Some s' \<and> canvas (heap s this) = Some c
               \<and> activeObject (canvases s c) = Some ob"
  then show "activeObjects (heap s' this) = activeObjects (heap s this) @ [ob]"
    using enterGroup'_active(2)[of n B s this ob rpt s' c] by blast
qed

lemma enterGroup'_example:
  "enterGroup' 2 plainBase activeScene 1 5 False \<noteq> None"
  by (simp add: enterGroup'_def set_canvas.simps isDescendantOf_def updObject_def watchObject_def
        activeScene_def scene_defs eval_nat_numeral Let_def)

theorem active_objects_unguarded_witness:
  "activeObjects (heap (objectSelectionMonitor (objectSelectionMonitor scene 1 True 4) 1 True 4) 1) = [4, 4]
   \<and> objectSelectionMonitor scene 1 False 4 = scene
   \<and> activeObjects (heap (objectSelectionMonitor (objectSelectionMonitor (objectSelectionMonitor scene 1 True 4) 1 True 4) 1 False 4) 1) = [4]
   \<and> dirty (heap (objectSelectionMonitor (objectSelectionMonitor scene 1 True 4) 1 False 4) 1)
   \<and> enterGroup' 2 plainBase activeScene 1 5 False \<noteq> None
   \<and> map_option (\<lambda>s'. activeObjects (heap s' 1)) (enterGroup' 2 plainBase activeScene 1 5 False) = Some [5]"
proof -
  have a0: "activeObjects (heap scene 1) = []" "activeObjects (heap activeScene 1) = []"
           "canvas (heap activeScene 1) = Some 0" "activeObject (canvases activeScene 0) = Some 5"
    by (simp_all add: activeScene_def scene_defs)
  let ?s1 = "objectSelectionMonitor scene 1 True 4"
  let ?s2 = "objectSelectionMonitor ?s1 1 True 4"
  note T0 = active_objects_unguarded[of scene 1 4 plainBase False 2]
  note T1 = active_objects_unguarded[of ?s1 1 4 plainBase False 2]
  note T2 = active_objects_unguarded[of ?s2 1 4 plainBase False 2]
  note TA = active_objects_unguarded[of activeScene 1 5 plainBase False 2]
  have 1: "activeObjects (heap ?s1 1) = [4]" using T0 a0 by simp
  have 2: "activeObjects (heap ?s2 1) = [4, 4]" using T0 a0 by simp
  have 3: "objectSelectionMonitor scene 1 False 4 = scene" using T0 a0 by simp
  have 4: "activeObjects (heap (objectSelectionMonitor ?s2 1 False 4) 1) = [4]" using T2 2 by simp
  have 5: "dirty (heap (objectSelectionMonitor ?s1 1 False 4) 1)" using T1 1 by simp
  obtain s' where s': "enterGroup' 2 plainBase activeScene 1 5 False = Some s'"
    using enterGroup'_example by auto
  with TA a0 have "activeObjects (heap s' 1) = [5]" by simp
  with s' have 6: "map_option (\<lambda>s'. activeObjects (heap s' 1)) (enterGroup' 2 plainBase activeScene 1 5 False) = Some [5]"
    by simp
  from 2 3 4 5 6 enterGroup'_example show ?thesis by simp
qed

section \<open>What the membership operations do to the tree\<close>

text \<open>The layout procedure writes geometry, the first-layout flag and the event log.\<close>

lemma applyLayoutStrategy_field:
  assumes "applyLayoutStrategy n B s this ctx = Some s'"
      and g: "\<And>ob g. f (ob\<lparr>geom := g\<rparr>) = f ob"
      and d: "\<And>ob b. f (ob\<lparr>firstLayoutDone := b\<rparr>) = f ob"
  shows "f (heap s' y) = f (heap s y)"
  using assms(1)
proof (induction n arbitrary: s this ctx)
  case 0
  then show ?case by (simp add: applyLayoutStrategy.simps)
next
  case (Suc n)
  show ?case
  proof (cases "type ctx \<noteq> initialization \<and> \<not> firstLayoutDone (heap s this)")
    case True
    with Suc.prems show ?thesis by (simp add: applyLayoutStrategy.simps)
  next
    case False
    let ?it = "map_option (\<lambda>v. (orZero (optAngle v), orZero (optSkewX v), orZero (optSkewY v)))
                 (if type ctx = initialization then options ctx else None)"
    let ?center = "getRelativeCenterPoint B this (geom (heap s this))"
    let ?res = "getLayoutStrategyResult B s this (layout (heap s this)) (objects (heap s this)) ctx"
    have fin: "f (heap t y) = f (heap s y) \<Longrightarrow>
               (case group (heap (fire (updObject t this (\<lambda>ob. ob\<lparr>firstLayoutDone := True\<rparr>)) e) this) of
                  None \<Rightarrow> Some (fire (updObject t this (\<lambda>ob. ob\<lparr>firstLayoutDone := True\<rparr>)) e)
                | Some g \<Rightarrow> applyLayoutStrategy n B (fire (updObject t this (\<lambda>ob. ob\<lparr>firstLayoutDone := True\<rparr>)) e)
                              g (ctx\<lparr>path := path ctx @ [this]\<rparr>)) = Some s'
               \<Longrightarrow> f (heap s' y) = f (heap s y)" for t e
    proof -
      assume a: "f (heap t y) = f (heap s y)"
      let ?t3 = "fire (updObject t this (\<lambda>ob. ob\<lparr>firstLayoutDone := True\<rparr>)) e"
      assume b: "(case group (heap ?t3 this) of None \<Rightarrow> Some ?t3
                | Some g \<Rightarrow> applyLayoutStrategy n B ?t3 g (ctx\<lparr>path := path ctx @ [this]\<rparr>)) = Some s'"
      have c: "f (heap ?t3 y) = f (heap s y)" using a by (auto simp: fire_def updObject_def d)
      show "f (heap s' y) = f (heap s y)"
      proof (cases "group (heap ?t3 this)")
        case None
        with b c show ?thesis by simp
      next
        case (Some gg)
        with b have "applyLayoutStrategy n B ?t3 gg (ctx\<lparr>path := path ctx @ [this]\<rparr>) = Some s'" by simp
        from Suc.IH[OF this] c show ?thesis by simp
      qed
    qed
    show ?thesis
    proof (cases ?res)
      case (Some r)
      let ?t = "fst (applyLayoutResult B s this ctx ?center ?it r)"
      have "f (heap ?t y) = f (heap s y)" by (rule applyLayoutResult_field[of f, OF g])
      moreover from Suc.prems False Some
      have "(case group (heap (fire (updObject ?t this (\<lambda>ob. ob\<lparr>firstLayoutDone := True\<rparr>))
                                 (FireLayout this ctx r (Some (snd (applyLayoutResult B s this ctx ?center ?it r))))) this) of
                  None \<Rightarrow> Some (fire (updObject ?t this (\<lambda>ob. ob\<lparr>firstLayoutDone := True\<rparr>))
                                 (FireLayout this ctx r (Some (snd (applyLayoutResult B s this ctx ?center ?it r)))))
                | Some g \<Rightarrow> applyLayoutStrategy n B (fire (updObject ?t this (\<lambda>ob. ob\<lparr>firstLayoutDone := True\<rparr>))
                                 (FireLayout this ctx r (Some (snd (applyLayoutResult B s this ctx ?center ?it r)))))
                              g (ctx\<lparr>path := path ctx @ [this]\<rparr>)) = Some s'"
        by (simp add: applyLayoutStrategy.simps Let_def)
      ultimately show ?thesis by (rule fin)
    next
      case None
      show ?thesis
      proof (cases "type ctx = initialization")
        case True
        let ?t = "setInitialTransform s this ?it"
        let ?r = "emptyResult\<lparr>centerX := fst ?center, centerY := snd ?center,
                              resWidth := width (geom (heap s this)),
                              resHeight := height (geom (heap s this))\<rparr>"
        have "f (heap ?t y) = f (heap s y)" by (rule setInitialTransform_field[of f, OF g])
        moreover from Suc.prems True None
        have "(case group (heap (fire (updObject ?t this (\<lambda>ob. ob\<lparr>firstLayoutDone := True\<rparr>))
                                 (FireLayout this ctx ?r None)) this) of
                  None \<Rightarrow> Some (fire (updObject ?t this (\<lambda>ob. ob\<lparr>firstLayoutDone := True\<rparr>))
                                 (FireLayout this ctx ?r None))
                | Some g \<Rightarrow> applyLayoutStrategy n B (fire (updObject ?t this (\<lambda>ob. ob\<lparr>firstLayoutDone := True\<rparr>))
                                 (FireLayout this ctx ?r None))
                              g (ctx\<lparr>path := path ctx @ [this]\<rparr>)) = Some s'"
          by (simp add: applyLayoutStrategy.simps Let_def)
        ultimately show ?thesis by (rule fin)
      next
        case F: False
        with Suc.prems None False show ?thesis by (simp add: applyLayoutStrategy.simps Let_def)
      qed
    qed
  qed
qed

lemma applyLayoutStrategy_canvases:
  assumes "applyLayoutStrategy n B s this ctx = Some s'"
  shows "canvases s' = canvases s"
  using assms
proof (induction n arbitrary: s this ctx)
  case 0
  then show ?case by (simp add: applyLayoutStrategy.simps)
next
  case (Suc n)
  have k: "canvases (fire (updObject t this f) e) = canvases t" for t f e
    by (simp add: fire_def)
  from Suc.prems show ?case
    by (auto simp: applyLayoutStrategy.simps Let_def k applyLayoutResult_rest
             split: if_splits option.splits dest!: Suc.IH)
qed

lemma onAfterObjectsChange_field:
  assumes "onAfterObjectsChange n B s this ty tgts = Some s'"
      and g: "\<And>ob g. f (ob\<lparr>geom := g\<rparr>) = f ob"
      and d: "\<And>ob b. f (ob\<lparr>firstLayoutDone := b\<rparr>) = f ob"
      and e: "\<And>ob b. f (ob\<lparr>dirty := b\<rparr>) = f ob"
  shows "f (heap s' y) = f (heap s y)"
proof -
  from assms(1) obtain s1 where s1: "applyLayoutStrategy n B s this ((newContext ty)\<lparr>targets := tgts\<rparr>) = Some s1"
    and s': "s' = updObject s1 this (\<lambda>ob. ob\<lparr>dirty := True\<rparr>)"
    by (auto simp: onAfterObjectsChange_def split: Option.bind_splits)
  have "f (heap s' y) = f (heap s1 y)" unfolding s' by (auto simp: updObject_def e)
  with applyLayoutStrategy_field[of n B s this _ s1 f, OF s1 g d] show ?thesis by simp
qed

lemma onAfterObjectsChange_canvases:
  assumes "onAfterObjectsChange n B s this ty tgts = Some s'"
  shows "canvases s' = canvases s"
  using assms applyLayoutStrategy_canvases
  by (auto simp: onAfterObjectsChange_def split: Option.bind_splits)

text \<open>Leaving a group clears the parent reference of the object and keeps all child sequences.\<close>

lemma exitGroup'_struct:
  "group (heap (exitGroup' B s this ob rpt) y) = (if y = ob then None else group (heap s y))"
  "objects (heap (exitGroup' B s this ob rpt) y) = objects (heap s y)"
  "canvases (exitGroup' B s this ob rpt) = canvases s"
  by (auto simp: exitGroup'_def Let_def updObject_def updGeom_def watchObject_def)

lemma exitGroup_struct:
  assumes "exitGroup n B s this ob rpt = Some s'"
  shows "group (heap s' y) = (if y = ob then None else group (heap s y))"
    and "objects (heap s' y) = objects (heap s y)"
    and "canvases s' = canvases s"
proof -
  from assms have c: "set_canvas n (exitGroup' B s this ob rpt) ob None = Some s'"
    by (simp add: exitGroup_def)
  show "group (heap s' y) = (if y = ob then None else group (heap s y))"
    using set_canvas_field[OF c, of group y] by (simp add: exitGroup'_struct)
  show "objects (heap s' y) = objects (heap s y)"
    using set_canvas_field[OF c, of objects y] by (simp add: exitGroup'_struct)
  show "canvases s' = canvases s"
    using set_canvas_rest(1)[OF c] by (simp add: exitGroup'_struct)
qed

lemma onObjectRemoved_struct:
  assumes "onObjectRemoved n B s this ob rpt = Some s'"
  shows "group (heap s' y) = (if y = ob then None else group (heap s y))"
    and "objects (heap s' y) = objects (heap s y)"
    and "canvases s' = canvases s"
proof -
  from assms obtain s1 where s1: "exitGroup n B s this ob rpt = Some s1" and s': "s' = fire s1 (FireRemoved ob this)"
    by (auto simp: onObjectRemoved_def split: Option.bind_splits)
  show "group (heap s' y) = (if y = ob then None else group (heap s y))"
    unfolding s' using exitGroup_struct(1)[OF s1, of y] by (simp add: fire_def)
  show "objects (heap s' y) = objects (heap s y)"
    unfolding s' using exitGroup_struct(2)[OF s1, of y] by (simp add: fire_def)
  show "canvases s' = canvases s"
    unfolding s' using exitGroup_struct(3)[OF s1] by (simp add: fire_def)
qed

lemma collection_remove_struct:
  assumes "collection_remove this (\<lambda>object st. onObjectRemoved n B st this object False) objs acc s = Some (r, s')"
  shows "(\<forall>y. objects (heap s' y) =
               (if y = this then fold remove1 objs (objects (heap s this)) else objects (heap s y)))
       \<and> (\<forall>y. group (heap s' y) =
               (if y \<in> set objs \<and> y \<in> set (objects (heap s this)) then None else group (heap s y)))
       \<and> canvases s' = canvases s"
  using assms
proof (induction objs arbitrary: acc s)
  case Nil
  then show ?case by simp
next
  case (Cons ob rest)
  show ?case
  proof (cases "ob \<in> set (objects (heap s this))")
    case False
    then have "indexOf (objects (heap s this)) ob = - 1" by (simp add: indexOf_notin)
    with Cons.prems have "collection_remove this (\<lambda>object st. onObjectRemoved n B st this object False) rest acc s = Some (r, s')"
      by (simp add: Let_def)
    from Cons.IH[OF this] False show ?thesis by (auto simp: remove1_idem)
  next
    case True
    then have ge: "0 \<le> indexOf (objects (heap s this)) ob" by (simp add: indexOf_in)
    then have ne: "indexOf (objects (heap s this)) ob \<noteq> - 1" by simp
    let ?s1 = "updObject s this (\<lambda>o'. o'\<lparr>objects := splice1 (objects o') (indexOf (objects (heap s this)) ob)\<rparr>)"
    from Cons.prems ne obtain s2 where
      s2: "onObjectRemoved n B ?s1 this ob False = Some s2"
      and rec: "collection_remove this (\<lambda>object st. onObjectRemoved n B st this object False) rest (acc @ [ob]) s2 = Some (r, s')"
      by (auto simp: Let_def split: Option.bind_splits)
    have k1: "objects (heap ?s1 y) = (if y = this then remove1 ob (objects (heap s this)) else objects (heap s y))" for y
      using splice1_indexOf[OF ge] by (simp add: updObject_def)
    have g1: "group (heap ?s1 y) = group (heap s y)" for y by (simp add: updObject_def)
    have k2: "objects (heap s2 y) = (if y = this then remove1 ob (objects (heap s this)) else objects (heap s y))" for y
      using onObjectRemoved_struct(2)[OF s2, of y] k1 by simp
    have g2: "group (heap s2 y) = (if y = ob then None else group (heap s y))" for y
      using onObjectRemoved_struct(1)[OF s2, of y] g1 by simp
    have c2: "canvases s2 = canvases s"
      using onObjectRemoved_struct(3)[OF s2] by (simp add: updObject_def)
    note IH = Cons.IH[OF rec]
    show ?thesis
    proof (intro conjI allI)
      fix y
      show "objects (heap s' y) =
               (if y = this then fold remove1 (ob # rest) (objects (heap s this)) else objects (heap s y))"
        using IH k2 by simp
      show "group (heap s' y) =
               (if y \<in> set (ob # rest) \<and> y \<in> set (objects (heap s this)) then None else group (heap s y))"
      proof (cases "y = ob")
        case True
        with IH g2 \<open>ob \<in> set (objects (heap s this))\<close> show ?thesis by simp
      next
        case False
        then have "y \<in> set (remove1 ob (objects (heap s this))) \<longleftrightarrow> y \<in> set (objects (heap s this))"
          by (simp add: in_set_remove1)
        with IH g2 k2 False show ?thesis by simp
      qed
    next
      show "canvases s' = canvases s" using IH c2 by simp
    qed
  qed
qed

lemma remove_struct:
  assumes "remove' n B s this objs = Some (r, s')"
  shows "objects (heap s' y) =
               (if y = this then fold remove1 objs (objects (heap s this)) else objects (heap s y))"
    and "group (heap s' y) =
               (if y \<in> set objs \<and> y \<in> set (objects (heap s this)) then None else group (heap s y))"
    and "canvases s' = canvases s"
proof -
  from assms obtain r1 s1 where
    c: "collection_remove this (\<lambda>object st. onObjectRemoved n B st this object False) objs [] s = Some (r1, s1)"
    and a: "onAfterObjectsChange n B s1 this removed r1 = Some s'"
    by (auto simp: remove'_def split: Option.bind_splits)
  note S = collection_remove_struct[OF c]
  show "objects (heap s' y) =
               (if y = this then fold remove1 objs (objects (heap s this)) else objects (heap s y))"
    using onAfterObjectsChange_field[OF a, of objects y] S by simp
  show "group (heap s' y) =
               (if y \<in> set objs \<and> y \<in> set (objects (heap s this)) then None else group (heap s y))"
    using onAfterObjectsChange_field[OF a, of group y] S by simp
  show "canvases s' = canvases s"
    using onAfterObjectsChange_canvases[OF a] S by simp
qed

text \<open>Entering a group sets the parent reference, after the former group has let go.\<close>

lemma enterGroup'_struct:
  assumes "enterGroup' n B s this ob rpt = Some s'"
  shows "group (heap s' y) = (if y = ob then Some this else group (heap s y))"
    and "objects (heap s' y) = objects (heap s y)"
    and "canvases s' = canvases s"
proof -
  let ?s1 = "if rpt
                then updGeom s ob
                       (\<lambda>g. applyTransformToObject B ob g
                               (multiplyTransformMatrices B (invertTransform B (calcTransformMatrix B s this))
                                                            (calcTransformMatrix B s ob)))
                else s"
  let ?s2 = "updObject ?s1 ob (\<lambda>o'. o'\<lparr>group := Some this\<rparr>)"
  from assms obtain s3 where s3: "set_canvas n ?s2 ob (canvas (heap ?s2 this)) = Some s3"
    by (auto simp: enterGroup'_def Let_def split: Option.bind_splits)
  let ?s4 = "if interactive (heap s3 this) then watchObject s3 this True ob else s3"
  let ?act = "case canvas (heap ?s4 this) of None \<Rightarrow> None | Some c \<Rightarrow> activeObject (canvases ?s4 c)"
  let ?pushed = "updObject ?s4 this (\<lambda>o'. o'\<lparr>activeObjects := activeObjects o' @ [ob]\<rparr>)"
  have e': "(case ?act of None \<Rightarrow> Some ?s4
              | Some a \<Rightarrow> if a = ob then Some ?pushed
                  else do { d \<leftarrow> isDescendantOf n (heap ?s4) ob (Obj a);
                            Some (if d then ?pushed else ?s4) }) = Some s'"
    using assms s3 by (simp add: enterGroup'_def Let_def)
  then have s': "s' = ?s4 \<or> s' = ?pushed"
    by (auto split: option.splits if_splits Option.bind_splits)
  have g2: "group (heap ?s2 y) = (if y = ob then Some this else group (heap s y))"
    and k2: "objects (heap ?s2 y) = objects (heap s y)"
    and c2: "canvases ?s2 = canvases s"
    by (auto simp: updObject_def updGeom_def)
  have g3: "group (heap s3 y) = (if y = ob then Some this else group (heap s y))"
    using set_canvas_field[OF s3, of group y] g2 by simp
  have k3: "objects (heap s3 y) = objects (heap s y)"
    using set_canvas_field[OF s3, of objects y] k2 by simp
  have c3: "canvases s3 = canvases s" using set_canvas_rest(1)[OF s3] c2 by simp
  have g4: "group (heap ?s4 y) = group (heap s3 y)" "objects (heap ?s4 y) = objects (heap s3 y)"
           "canvases ?s4 = canvases s3"
    by (auto simp: watchObject_def updObject_def)
  have gp: "group (heap ?pushed y) = group (heap s3 y)" "objects (heap ?pushed y) = objects (heap s3 y)"
           "canvases ?pushed = canvases s3"
    by (auto simp: watchObject_def updObject_def)
  show "group (heap s' y) = (if y = ob then Some this else group (heap s y))"
    using s' g4(1) gp(1) g3 by auto
  show "objects (heap s' y) = objects (heap s y)"
    using s' g4(2) gp(2) k3 by auto
  show "canvases s' = canvases s"
    using s' g4(3) gp(3) c3 by auto
qed

lemma enterGroup_struct:
  assumes "enterGroup n B s this ob rpt = Some s'"
  shows "group (heap s' y) = (if y = ob then Some this else group (heap s y))"
    and "objects (heap s' y) =
           (if group (heap s ob) = Some y then remove1 ob (objects (heap s y)) else objects (heap s y))"
    and "canvases s' = canvases s"
proof -
  show "group (heap s' y) = (if y = ob then Some this else group (heap s y))"
       "objects (heap s' y) =
           (if group (heap s ob) = Some y then remove1 ob (objects (heap s y)) else objects (heap s y))"
       "canvases s' = canvases s"
  proof (atomize (full), cases "group (heap s ob)")
    case None
    with assms have e: "enterGroup' n B s this ob rpt = Some s'" by (simp add: enterGroup_def)
    from None enterGroup'_struct[OF e]
    show "(group (heap s' y) = (if y = ob then Some this else group (heap s y)))
        \<and> (objects (heap s' y) =
           (if group (heap s ob) = Some y then remove1 ob (objects (heap s y)) else objects (heap s y)))
        \<and> canvases s' = canvases s" by simp
  next
    case (Some g)
    with assms obtain r s1 where r: "remove' n B s g [ob] = Some (r, s1)"
      and e: "enterGroup' n B s1 this ob rpt = Some s'"
      by (auto simp: enterGroup_def split: Option.bind_splits)
    note R = remove_struct[OF r]
    note E = enterGroup'_struct[OF e]
    show "(group (heap s' y) = (if y = ob then Some this else group (heap s y)))
        \<and> (objects (heap s' y) =
           (if group (heap s ob) = Some y then remove1 ob (objects (heap s y)) else objects (heap s y)))
        \<and> canvases s' = canvases s"
      using Some E(1)[of y] E(2)[of y] E(3) R(1)[of y] R(2)[of y] R(3) by auto
  qed
qed

lemma onObjectAdded_struct:
  assumes "onObjectAdded n B s this ob = Some s'"
  shows "group (heap s' y) = (if y = ob then Some this else group (heap s y))"
    and "objects (heap s' y) =
           (if group (heap s ob) = Some y then remove1 ob (objects (heap s y)) else objects (heap s y))"
    and "canvases s' = canvases s"
proof -
  from assms obtain s1 where s1: "enterGroup n B s this ob True = Some s1" and s': "s' = fire s1 (FireAdded ob this)"
    by (auto simp: onObjectAdded_def split: Option.bind_splits)
  show "group (heap s' y) = (if y = ob then Some this else group (heap s y))"
    unfolding s' using enterGroup_struct(1)[OF s1, of y] by (simp add: fire_def)
  show "objects (heap s' y) =
           (if group (heap s ob) = Some y then remove1 ob (objects (heap s y)) else objects (heap s y))"
    unfolding s' using enterGroup_struct(2)[OF s1, of y] by (simp add: fire_def)
  show "canvases s' = canvases s"
    unfolding s' using enterGroup_struct(3)[OF s1] by (simp add: fire_def)
qed

section \<open>The membership invariant\<close>

lemma pendingConsistent_Nil: "pendingConsistent h this [] = consistent h"
  by (simp add: pendingConsistent_def consistent_def)

lemma pending_step:
  assumes p: "pendingConsistent h this (ob # rest)"
      and g: "\<forall>y. group (h' y) = (if y = ob then Some this else group (h y))"
      and k: "\<forall>y. objects (h' y) = (if group (h ob) = Some y then remove1 ob (objects (h y)) else objects (h y))"
  shows "pendingConsistent h' this rest" and "objects (h' this) = objects (h this)"
proof -
  from p have mem: "\<And>G x. x \<in> set (objects (h G)) \<longleftrightarrow> group (h x) = Some G \<or> (G = this \<and> x \<in> set (ob # rest))"
    and dist: "\<And>G. distinct (objects (h G))"
    and nt: "\<And>x. x \<in> set (ob # rest) \<Longrightarrow> group (h x) \<noteq> Some this"
    and dt: "distinct (ob # rest)"
    by (auto simp: pendingConsistent_def)
  have obn: "group (h ob) \<noteq> Some this" using nt by simp
  then show kthis: "objects (h' this) = objects (h this)" using k by simp
  have obin: "ob \<in> set (objects (h this))" using mem[of ob this] by simp
  show "pendingConsistent h' this rest"
    unfolding pendingConsistent_def
  proof (intro conjI allI ballI)
    fix G x
    show "x \<in> set (objects (h' G)) \<longleftrightarrow> group (h' x) = Some G \<or> (G = this \<and> x \<in> set rest)"
    proof (cases "x = ob")
      case True
      have nr: "ob \<notin> set rest" using dt by simp
      show ?thesis
      proof (cases "G = this")
        case Gt: True
        with True kthis obin g nr show ?thesis by simp
      next
        case Gn: False
        have "ob \<notin> set (objects (h' G))"
        proof (cases "group (h ob) = Some G")
          case T: True
          then have "objects (h' G) = remove1 ob (objects (h G))" using k by simp
          then show ?thesis using dist[of G] by simp
        next
          case F: False
          then have "objects (h' G) = objects (h G)" using k by simp
          then show ?thesis using mem[of ob G] F Gn by simp
        qed
        with True Gn g show ?thesis by simp
      qed
    next
      case False
      have "x \<in> set (objects (h' G)) \<longleftrightarrow> x \<in> set (objects (h G))"
        using k False by (simp add: in_set_remove1)
      with False g mem[of x G] show ?thesis by simp
    qed
  next
    fix G
    show "distinct (objects (h' G))" using k dist[of G] by (simp add: distinct_remove1)
  next
    fix x assume x: "x \<in> set rest"
    then have "x \<noteq> ob" using dt by auto
    with g nt[of x] x show "group (h' x) \<noteq> Some this" by simp
  next
    show "distinct rest" using dt by simp
  qed
qed

lemma forEach_onObjectAdded:
  assumes "forEach todo (\<lambda>object st. onObjectAdded n B st this object) s = Some s'"
      and "pendingConsistent (heap s) this todo"
  shows "consistent (heap s') \<and> objects (heap s' this) = objects (heap s this)"
  using assms
proof (induction todo arbitrary: s)
  case Nil
  then show ?case by (simp add: pendingConsistent_Nil)
next
  case (Cons ob rest)
  from Cons.prems(1) obtain s1 where s1: "onObjectAdded n B s this ob = Some s1"
    and r: "forEach rest (\<lambda>object st. onObjectAdded n B st this object) s1 = Some s'"
    by (auto split: option.splits)
  have g: "\<forall>y. group (heap s1 y) = (if y = ob then Some this else group (heap s y))"
    using onObjectAdded_struct(1)[OF s1] by simp
  have k: "\<forall>y. objects (heap s1 y) = (if group (heap s ob) = Some y then remove1 ob (objects (heap s y)) else objects (heap s y))"
    using onObjectAdded_struct(2)[OF s1] by simp
  note P = pending_step[OF Cons.prems(2) g k]
  from Cons.IH[OF r P(1)] P(2) show ?case by simp
qed

lemma pending_start:
  assumes c: "consistent h"
      and d: "distinct allowed"
      and n: "\<forall>ob\<in>set allowed. ob \<notin> set (objects (h this))"
      and k: "\<forall>y. objects (h' y) = (if y = this then kids else objects (h y))"
      and ks: "set kids = set (objects (h this)) \<union> set allowed" "distinct kids"
      and g: "\<forall>y. group (h' y) = group (h y)"
  shows "pendingConsistent h' this allowed"
  unfolding pendingConsistent_def
proof (intro conjI allI ballI)
  from c have mem: "\<And>G x. x \<in> set (objects (h G)) \<longleftrightarrow> group (h x) = Some G"
    and dist: "\<And>G. distinct (objects (h G))" by (auto simp: consistent_def)
  fix G x
  show "x \<in> set (objects (h' G)) \<longleftrightarrow> group (h' x) = Some G \<or> (G = this \<and> x \<in> set allowed)"
    using k g ks(1) mem[of x G] by auto
  show "distinct (objects (h' G))" using k ks(2) dist[of G] by simp
next
  from c have mem: "\<And>G x. x \<in> set (objects (h G)) \<longleftrightarrow> group (h x) = Some G" by (auto simp: consistent_def)
  fix x assume "x \<in> set allowed"
  with n mem[of x this] g show "group (h' x) \<noteq> Some this" by simp
next
  show "distinct allowed" by (rule d)
qed

section \<open>Which arguments enter the group\<close>

lemma isDescendantOf_loop_chain:
  "isChain h False p xs \<Longrightarrow> length xs < n \<Longrightarrow> isDescendantOf_loop n h t p = Some (t \<in> set xs)"
proof (induction xs arbitrary: p n)
  case Nil
  then show ?case by (cases n) auto
next
  case (Cons a xs)
  then obtain m where n: "n = Suc m" by (cases n) auto
  from Cons.prems have p: "p = Some a" and c: "isChain h False (parentOf h False a) xs" by auto
  show ?case
  proof (cases a)
    case (Cnv c')
    with c have "xs = []" by (cases xs) (auto simp: parentOf_def)
    with n p Cnv show ?thesis by auto
  next
    case (Obj x)
    from Cons.prems n have "length xs < m" by simp
    from Cons.IH[OF c this] n p Obj show ?thesis by auto
  qed
qed

lemma canEnterGroup_spec:
  assumes "getAncestors n h this False = Some anc"
  shows "canEnterGroup n h this ob
         = Some (ob \<noteq> this \<and> Obj ob \<notin> set anc \<and> ob \<notin> set (objects (h this)))"
proof -
  from assms have "isChain h False (parentOf h False (Obj this)) anc" "length anc < n"
    by (simp_all add: getAncestors_iff)
  then have "isDescendantOf n h this (Obj ob) = Some (Obj ob \<in> set anc)"
    unfolding isDescendantOf_def by (rule isDescendantOf_loop_chain)
  then show ?thesis by (auto simp: canEnterGroup_def indexOf_notin)
qed

lemma indexOf_first:
  "k < length xs \<Longrightarrow> indexOf xs (xs ! k) = int k \<longleftrightarrow> (\<forall>j<k. xs ! j \<noteq> xs ! k)"
proof (induction xs arbitrary: k)
  case Nil
  then show ?case by simp
next
  case (Cons y ys)
  show ?case
  proof (cases k)
    case 0
    then show ?thesis by simp
  next
    case (Suc k')
    with Cons.prems have k': "k' < length ys" by simp
    show ?thesis
    proof (cases "y = ys ! k'")
      case True
      then have "(y # ys) ! 0 = (y # ys) ! k" using Suc by simp
      moreover have "0 < k" using Suc by simp
      ultimately have "\<not> (\<forall>j<k. (y # ys) ! j \<noteq> (y # ys) ! k)" by blast
      with True Suc show ?thesis by simp
    next
      case False
      from k' have "ys ! k' \<in> set ys" by simp
      then have ne: "indexOf ys (ys ! k') \<noteq> - 1" by (simp add: indexOf_notin)
      have "(\<forall>j<Suc k'. (y # ys) ! j \<noteq> ys ! k') \<longleftrightarrow> (\<forall>j<k'. ys ! j \<noteq> ys ! k')"
        using False by (auto simp: less_Suc_eq_0_disj)
      with Cons.IH[OF k'] False ne Suc show ?thesis by (simp add: Let_def)
    qed
  qed
qed

lemma filterObjects_loop_spec:
  assumes "\<And>ob. canEnterGroup n h this ob = Some (Q ob)"
  shows "k \<le> length array \<Longrightarrow>
         filterObjects_loop n h this array (int k) (drop k array)
         = Some (map (\<lambda>i. array ! i)
                  (filter (\<lambda>i. Q (array ! i) \<and> (\<forall>j<i. array ! j \<noteq> array ! i)) [k..<length array]))"
proof (induction "length array - k" arbitrary: k)
  case 0
  then show ?case by simp
next
  case (Suc d)
  then have k: "k < length array" by simp
  then have dr: "drop k array = array ! k # drop (Suc k) array" by (simp add: Cons_nth_drop_Suc)
  have up: "[k..<length array] = k # [Suc k..<length array]" using k by (simp add: upt_conv_Cons)
  have "d = length array - Suc k" using Suc.hyps(2) by simp
  from Suc.hyps(1)[OF this] k
  have IH: "filterObjects_loop n h this array (int (Suc k)) (drop (Suc k) array)
         = Some (map (\<lambda>i. array ! i)
                  (filter (\<lambda>i. Q (array ! i) \<and> (\<forall>j<i. array ! j \<noteq> array ! i)) [Suc k..<length array]))"
    by simp
  have i1: "int k + 1 = int (Suc k)" by simp
  show ?case
    unfolding dr up filterObjects_loop.simps assms i1 IH
    using indexOf_first[OF k] by simp
qed

lemma filterObjects_loop_gen:
  "k \<le> length array \<Longrightarrow>
   filterObjects_loop n h this array (int k) (drop k array) = Some al \<Longrightarrow>
   al = map (\<lambda>i. array ! i)
          (filter (\<lambda>i. canEnterGroup n h this (array ! i) = Some True \<and> (\<forall>j<i. array ! j \<noteq> array ! i))
             [k..<length array])"
proof (induction "length array - k" arbitrary: k al)
  case 0
  then show ?case by simp
next
  case (Suc d)
  then have k: "k < length array" by simp
  then have dr: "drop k array = array ! k # drop (Suc k) array" by (simp add: Cons_nth_drop_Suc)
  have up: "[k..<length array] = k # [Suc k..<length array]" using k by (simp add: upt_conv_Cons)
  have i1: "int k + 1 = int (Suc k)" by simp
  from Suc.prems(2) obtain c r where c: "canEnterGroup n h this (array ! k) = Some c"
    and r: "filterObjects_loop n h this array (int (Suc k)) (drop (Suc k) array) = Some r"
    and al: "al = (if c \<and> indexOf array (array ! k) = int k then array ! k # r else r)"
    unfolding dr filterObjects_loop.simps i1 by (auto split: Option.bind_splits)
  have "d = length array - Suc k" using Suc.hyps(2) by simp
  from Suc.hyps(1)[OF this _ r] k
  have IH: "r = map (\<lambda>i. array ! i)
          (filter (\<lambda>i. canEnterGroup n h this (array ! i) = Some True \<and> (\<forall>j<i. array ! j \<noteq> array ! i))
             [Suc k..<length array])"
    by simp
  show ?case
    unfolding up al IH using indexOf_first[OF k] c by simp
qed

lemma filterObjectsBeforeEnteringGroup_gen:
  assumes "filterObjectsBeforeEnteringGroup n h this objs = Some al"
  shows "al = firstAccepted (\<lambda>ob. canEnterGroup n h this ob = Some True) objs"
  unfolding firstAccepted_def
  using filterObjects_loop_gen[of 0 objs n h this al] assms
  by (simp add: filterObjectsBeforeEnteringGroup_def)

lemma filterObjectsBeforeEnteringGroup_spec:
  assumes "getAncestors n h this False = Some anc"
  shows "filterObjectsBeforeEnteringGroup n h this objs = Some (accepted h this anc objs)"
  unfolding filterObjectsBeforeEnteringGroup_def accepted_def firstAccepted_def
  using filterObjects_loop_spec[of n h this _ 0 objs, OF canEnterGroup_spec[OF assms]]
  by simp

lemma firstAccepted_props:
  "distinct (firstAccepted Q objs)"
  "ob \<in> set (firstAccepted Q objs) \<longleftrightarrow> ob \<in> set objs \<and> Q ob"
proof -
  let ?P = "\<lambda>i. Q (objs ! i) \<and> (\<forall>j<i. objs ! j \<noteq> objs ! i)"
  have "inj_on (\<lambda>i. objs ! i) (set (filter ?P [0..<length objs]))"
  proof (rule inj_onI)
    fix i j assume i: "i \<in> set (filter ?P [0..<length objs])" and j: "j \<in> set (filter ?P [0..<length objs])"
      and e: "objs ! i = objs ! j"
    show "i = j"
    proof (rule ccontr)
      assume "i \<noteq> j"
      then consider "i < j" | "j < i" by linarith
      then show False using i j e by cases auto
    qed
  qed
  then show "distinct (firstAccepted Q objs)"
    unfolding firstAccepted_def by (simp add: distinct_map)
  show "ob \<in> set (firstAccepted Q objs) \<longleftrightarrow> ob \<in> set objs \<and> Q ob"
  proof
    assume "ob \<in> set (firstAccepted Q objs)"
    then show "ob \<in> set objs \<and> Q ob"
      unfolding firstAccepted_def by auto
  next
    assume a: "ob \<in> set objs \<and> Q ob"
    define R where "R = (\<lambda>i. i < length objs \<and> objs ! i = ob)"
    from a have "\<exists>i. R i" by (auto simp: in_set_conv_nth R_def)
    then obtain i where i: "R i" "\<forall>j<i. \<not> R j" using exists_least_iff[of R] by blast
    then have "i < length objs" "objs ! i = ob" "\<forall>j<i. objs ! j \<noteq> objs ! i"
      by (auto simp: R_def)
    with a have "i \<in> set (filter ?P [0..<length objs])" by simp
    then have "objs ! i \<in> (\<lambda>i. objs ! i) ` set (filter ?P [0..<length objs])" by (rule imageI)
    then have "objs ! i \<in> set (firstAccepted Q objs)" unfolding firstAccepted_def by simp
    with \<open>objs ! i = ob\<close> show "ob \<in> set (firstAccepted Q objs)" by simp
  qed
qed

lemma accepted_props:
  "distinct (accepted h this anc objs)"
  "ob \<in> set (accepted h this anc objs) \<longleftrightarrow>
     ob \<in> set objs \<and> ob \<noteq> this \<and> Obj ob \<notin> set anc \<and> ob \<notin> set (objects (h this))"
  unfolding accepted_def by (simp_all add: firstAccepted_props)

lemma canEnterGroup_True:
  "canEnterGroup n h this ob = Some True \<Longrightarrow> ob \<noteq> this \<and> ob \<notin> set (objects (h this))"
  by (auto simp: canEnterGroup_def indexOf_notin split: if_splits Option.bind_splits)

section \<open>What \<^verbatim>\<open>add\<close> and \<^verbatim>\<open>insertAt\<close> do to the tree\<close>

lemma forEach_onObjectAdded_struct:
  assumes "forEach todo (\<lambda>object st. onObjectAdded n B st this object) s = Some s'"
      and "pendingConsistent (heap s) this todo"
  shows "(\<forall>y. group (heap s' y) = (if y \<in> set todo then Some this else group (heap s y)))
       \<and> (\<forall>y. y \<noteq> this \<longrightarrow> objects (heap s' y) = filter (\<lambda>x. x \<notin> set todo) (objects (heap s y)))
       \<and> canvases s' = canvases s"
  using assms
proof (induction todo arbitrary: s)
  case Nil
  then show ?case by simp
next
  case (Cons ob rest)
  from Cons.prems(1) obtain s1 where s1: "onObjectAdded n B s this ob = Some s1"
    and r: "forEach rest (\<lambda>object st. onObjectAdded n B st this object) s1 = Some s'"
    by (auto split: option.splits)
  have g: "\<forall>y. group (heap s1 y) = (if y = ob then Some this else group (heap s y))"
    using onObjectAdded_struct(1)[OF s1] by simp
  have k: "\<forall>y. objects (heap s1 y) = (if group (heap s ob) = Some y then remove1 ob (objects (heap s y)) else objects (heap s y))"
    using onObjectAdded_struct(2)[OF s1] by simp
  have c: "canvases s1 = canvases s" by (rule onObjectAdded_struct(3)[OF s1])
  note P = pending_step[OF Cons.prems(2) g k]
  note IH = Cons.IH[OF r P(1)]
  from Cons.prems(2) have mem: "\<And>G x. x \<in> set (objects (heap s G)) \<longleftrightarrow> group (heap s x) = Some G \<or> (G = this \<and> x \<in> set (ob # rest))"
    and dist: "\<And>G. distinct (objects (heap s G))"
    and dt: "distinct (ob # rest)"
    by (auto simp: pendingConsistent_def)
  have fid: "a \<notin> set xs \<Longrightarrow> filter (\<lambda>x. x \<noteq> a) xs = xs" for a :: nat and xs
    by (induction xs) auto
  have rf: "distinct xs \<Longrightarrow> remove1 a xs = filter (\<lambda>x. x \<noteq> a) xs" for a :: nat and xs
    by (induction xs) (auto simp: fid)
  have k': "objects (heap s1 y) = filter (\<lambda>x. x \<noteq> ob) (objects (heap s y))" if "y \<noteq> this" for y
  proof (cases "group (heap s ob) = Some y")
    case True
    then have "objects (heap s1 y) = remove1 ob (objects (heap s y))" using k by simp
    then show ?thesis using rf[OF dist[of y]] by simp
  next
    case False
    then have "ob \<notin> set (objects (heap s y))" using mem[of ob y] that by simp
    from fid[OF this] False k show ?thesis by simp
  qed
  show ?case
  proof (intro conjI allI impI)
    fix y
    show "group (heap s' y) = (if y \<in> set (ob # rest) then Some this else group (heap s y))"
      using IH g by auto
    show "canvases s' = canvases s" using IH c by simp
    assume "y \<noteq> this"
    then have "objects (heap s' y) = filter (\<lambda>x. x \<notin> set rest) (filter (\<lambda>x. x \<noteq> ob) (objects (heap s y)))"
      using IH k'[of y] by simp
    also have "\<dots> = filter (\<lambda>x. x \<notin> set (ob # rest)) (objects (heap s y))"
      by (simp add: conj_commute)
    finally show "objects (heap s' y) = filter (\<lambda>x. x \<notin> set (ob # rest)) (objects (heap s y))" .
  qed
qed

text \<open>
  The common part of \<^verbatim>\<open>add\<close> and \<^verbatim>\<open>insertAt\<close>: the new child sequence \<open>kids\<close> is
  written, the accepted objects enter the group one by one, the layout follows.
\<close>

lemma enter_all:
  assumes c: "consistent (heap s)"
      and d: "distinct allowed"
      and n: "\<forall>ob\<in>set allowed. ob \<notin> set (objects (heap s this))"
      and ks: "set kids = set (objects (heap s this)) \<union> set allowed" "distinct kids"
      and f: "forEach allowed (\<lambda>object st. onObjectAdded n B st this object)
                (updObject s this (\<lambda>ob. ob\<lparr>objects := kids\<rparr>)) = Some s1"
      and a: "onAfterObjectsChange n B s1 this added allowed = Some s'"
  shows "consistent (heap s')"
    and "objects (heap s' this) = kids"
    and "\<forall>y. group (heap s' y) = (if y \<in> set allowed then Some this else group (heap s y))"
    and "\<forall>y. y \<noteq> this \<longrightarrow> objects (heap s' y) = filter (\<lambda>x. x \<notin> set allowed) (objects (heap s y))"
    and "canvases s' = canvases s"
proof -
  let ?s0 = "updObject s this (\<lambda>ob. ob\<lparr>objects := kids\<rparr>)"
  have k0: "\<forall>y. objects (heap ?s0 y) = (if y = this then kids else objects (heap s y))"
    and g0: "\<forall>y. group (heap ?s0 y) = group (heap s y)"
    and c0: "canvases ?s0 = canvases s"
    by (simp_all add: updObject_def)
  have p: "pendingConsistent (heap ?s0) this allowed"
    by (rule pending_start[OF c d n k0 ks g0])
  note L = forEach_onObjectAdded[OF f p]
  note S = forEach_onObjectAdded_struct[OF f p]
  have hg: "group (heap s' y) = group (heap s1 y)" for y
    by (rule onAfterObjectsChange_field[OF a]) simp_all
  have hk: "objects (heap s' y) = objects (heap s1 y)" for y
    by (rule onAfterObjectsChange_field[OF a]) simp_all
  from L hg hk show "consistent (heap s')" by (simp add: consistent_def)
  from L hk k0 show "objects (heap s' this) = kids" by simp
  from S hg g0 show "\<forall>y. group (heap s' y) = (if y \<in> set allowed then Some this else group (heap s y))" by simp
  from S hk k0 show "\<forall>y. y \<noteq> this \<longrightarrow> objects (heap s' y) = filter (\<lambda>x. x \<notin> set allowed) (objects (heap s y))" by simp
  from S onAfterObjectsChange_canvases[OF a] c0 show "canvases s' = canvases s" by simp
qed

lemma remove_consistent:
  assumes c: "consistent (heap s)" and r: "remove' n B s this objs = Some (rs, s')"
  shows "consistent (heap s')"
proof -
  note R = remove_struct[OF r]
  from c have mem: "\<And>G x. x \<in> set (objects (heap s G)) \<longleftrightarrow> group (heap s x) = Some G"
    and dist: "\<And>G. distinct (objects (heap s G))" by (auto simp: consistent_def)
  have fs: "distinct xs \<Longrightarrow> set (fold remove1 os xs) = set xs - set os \<and> distinct (fold remove1 os xs)" for os and xs :: "nat list"
    by (induction os arbitrary: xs) (auto simp: distinct_remove1)
  show ?thesis
    unfolding consistent_def
  proof (intro conjI allI)
    fix G x
    show "x \<in> set (objects (heap s' G)) \<longleftrightarrow> group (heap s' x) = Some G"
      using R(1)[of G] R(2)[of x] fs[OF dist[of this], of objs] mem[of x G] mem[of x this]
      by (auto split: if_splits)
    show "distinct (objects (heap s' G))"
      using R(1)[of G] fs[OF dist[of this], of objs] dist[of G] by (auto split: if_splits)
  qed
qed

lemma removeAll_consistent:
  assumes c: "consistent (heap s)" and r: "removeAll' n B s this = Some (rs, s')"
  shows "consistent (heap s')"
proof -
  let ?s1 = "updObject s this (\<lambda>ob. ob\<lparr>activeObjects := []\<rparr>)"
  have "consistent (heap ?s1)" using c by (simp add: consistent_def updObject_def)
  moreover from r have "remove' n B ?s1 this (objects (heap ?s1 this)) = Some (rs, s')"
    by (simp add: removeAll'_def Let_def)
  ultimately show ?thesis by (rule remove_consistent)
qed


lemma insert_kids:
  assumes dist: "distinct old" and d: "distinct al" and n: "\<forall>ob\<in>set al. ob \<notin> set old"
  shows "set (take index old @ al @ drop index old) = set old \<union> set al"
    and "distinct (take index old @ al @ drop index old)"
proof -
  have so: "set (take index old) \<union> set (drop index old) = set old"
    by (metis append_take_drop_id set_append)
  have dj: "set (take index old) \<inter> set (drop index old) = {}"
    using dist by (metis append_take_drop_id distinct_append)
  show "set (take index old @ al @ drop index old) = set old \<union> set al" using so by auto
  show "distinct (take index old @ al @ drop index old)"
    using dist d n dj so by (auto simp: distinct_take distinct_drop dest: in_set_takeD in_set_dropD)
qed

lemma add_cases:
  assumes "add n B s this objs = Some s'"
  obtains al s1 where "filterObjectsBeforeEnteringGroup n (heap s) this objs = Some al"
    and "forEach al (\<lambda>object st. onObjectAdded n B st this object)
          (updObject s this (\<lambda>ob. ob\<lparr>objects := objects (heap s this) @ al\<rparr>)) = Some s1"
    and "onAfterObjectsChange n B s1 this added al = Some s'"
proof -
  have u: "updObject s this (\<lambda>ob. ob\<lparr>objects := objects ob @ al\<rparr>)
           = updObject s this (\<lambda>ob. ob\<lparr>objects := objects (heap s this) @ al\<rparr>)" for al
    by (simp add: updObject_def)
  from assms show ?thesis
    unfolding add_def collection_add_def u
    by (auto split: Option.bind_splits intro: that)
qed

lemma insertAt_cases:
  assumes "insertAt n B s this objs index = Some s'"
  obtains al s1 where "filterObjectsBeforeEnteringGroup n (heap s) this objs = Some al"
    and "forEach al (\<lambda>object st. onObjectAdded n B st this object)
          (updObject s this (\<lambda>ob. ob\<lparr>objects := take index (objects (heap s this)) @ al
                                                  @ drop index (objects (heap s this))\<rparr>)) = Some s1"
    and "onAfterObjectsChange n B s1 this added al = Some s'"
proof -
  have u: "updObject s this (\<lambda>ob. ob\<lparr>objects := take index (objects ob) @ al @ drop index (objects ob)\<rparr>)
           = updObject s this (\<lambda>ob. ob\<lparr>objects := take index (objects (heap s this)) @ al
                                                  @ drop index (objects (heap s this))\<rparr>)" for al
    by (simp add: updObject_def)
  from assms show ?thesis
    unfolding insertAt_def collection_insertAt_def u
    by (auto split: Option.bind_splits intro: that)
qed

lemma allowed_fresh:
  assumes "filterObjectsBeforeEnteringGroup n h this objs = Some al"
  shows "distinct al" and "\<forall>ob\<in>set al. ob \<notin> set (objects (h this))"
  using canEnterGroup_True[of n h this]
  unfolding filterObjectsBeforeEnteringGroup_gen[OF assms]
  by (auto simp: firstAccepted_props)

lemma add_consistent:
  assumes c: "consistent (heap s)" and r: "add n B s this objs = Some s'"
  shows "consistent (heap s')"
proof -
  from r obtain al s1 where al: "filterObjectsBeforeEnteringGroup n (heap s) this objs = Some al"
    and f: "forEach al (\<lambda>object st. onObjectAdded n B st this object)
          (updObject s this (\<lambda>ob. ob\<lparr>objects := objects (heap s this) @ al\<rparr>)) = Some s1"
    and a: "onAfterObjectsChange n B s1 this added al = Some s'"
    by (rule add_cases)
  note F = allowed_fresh[OF al]
  from c have dist: "distinct (objects (heap s this))" by (simp add: consistent_def)
  have ks: "set (objects (heap s this) @ al) = set (objects (heap s this)) \<union> set al"
           "distinct (objects (heap s this) @ al)"
    using dist F by auto
  show ?thesis by (rule enter_all(1)[OF c F ks f a])
qed

lemma insertAt_consistent:
  assumes c: "consistent (heap s)" and r: "insertAt n B s this objs index = Some s'"
  shows "consistent (heap s')"
proof -
  from r obtain al s1 where al: "filterObjectsBeforeEnteringGroup n (heap s) this objs = Some al"
    and f: "forEach al (\<lambda>object st. onObjectAdded n B st this object)
          (updObject s this (\<lambda>ob. ob\<lparr>objects := take index (objects (heap s this)) @ al
                                                  @ drop index (objects (heap s this))\<rparr>)) = Some s1"
    and a: "onAfterObjectsChange n B s1 this added al = Some s'"
    by (rule insertAt_cases)
  note F = allowed_fresh[OF al]
  from c have dist: "distinct (objects (heap s this))" by (simp add: consistent_def)
  note ks = insert_kids[OF dist F, of index]
  show ?thesis by (rule enter_all(1)[OF c F ks f a])
qed

lemma add_effect:
  assumes c: "consistent (heap s)"
      and anc: "getAncestors n (heap s) this False = Some anc"
      and r: "add n B s this objs = Some s'"
  shows "objects (heap s' this) = objects (heap s this) @ accepted (heap s) this anc objs"
    and "\<forall>y. group (heap s' y) = (if y \<in> set (accepted (heap s) this anc objs) then Some this else group (heap s y))"
    and "\<forall>y. y \<noteq> this \<longrightarrow> objects (heap s' y) = filter (\<lambda>x. x \<notin> set (accepted (heap s) this anc objs)) (objects (heap s y))"
    and "canvases s' = canvases s"
proof -
  let ?al = "accepted (heap s) this anc objs"
  from r obtain al s1 where al: "filterObjectsBeforeEnteringGroup n (heap s) this objs = Some al"
    and f: "forEach al (\<lambda>object st. onObjectAdded n B st this object)
          (updObject s this (\<lambda>ob. ob\<lparr>objects := objects (heap s this) @ al\<rparr>)) = Some s1"
    and a: "onAfterObjectsChange n B s1 this added al = Some s'"
    by (rule add_cases)
  from al filterObjectsBeforeEnteringGroup_spec[OF anc, of objs] have e: "al = ?al" by simp
  note F = allowed_fresh[OF al]
  from c have dist: "distinct (objects (heap s this))" by (simp add: consistent_def)
  have ks: "set (objects (heap s this) @ al) = set (objects (heap s this)) \<union> set al"
           "distinct (objects (heap s this) @ al)"
    using dist F by auto
  note E = enter_all[OF c F ks f a]
  show "objects (heap s' this) = objects (heap s this) @ ?al" using E(2) e by simp
  show "\<forall>y. group (heap s' y) = (if y \<in> set ?al then Some this else group (heap s y))" using E(3) e by simp
  show "\<forall>y. y \<noteq> this \<longrightarrow> objects (heap s' y) = filter (\<lambda>x. x \<notin> set ?al) (objects (heap s y))" using E(4) e by simp
  show "canvases s' = canvases s" by (rule E(5))
qed

lemma insertAt_effect:
  assumes c: "consistent (heap s)"
      and anc: "getAncestors n (heap s) this False = Some anc"
      and r: "insertAt n B s this objs index = Some s'"
  shows "objects (heap s' this)
         = take index (objects (heap s this)) @ accepted (heap s) this anc objs @ drop index (objects (heap s this))"
    and "\<forall>y. group (heap s' y) = (if y \<in> set (accepted (heap s) this anc objs) then Some this else group (heap s y))"
    and "\<forall>y. y \<noteq> this \<longrightarrow> objects (heap s' y) = filter (\<lambda>x. x \<notin> set (accepted (heap s) this anc objs)) (objects (heap s y))"
    and "canvases s' = canvases s"
proof -
  let ?al = "accepted (heap s) this anc objs"
  from r obtain al s1 where al: "filterObjectsBeforeEnteringGroup n (heap s) this objs = Some al"
    and f: "forEach al (\<lambda>object st. onObjectAdded n B st this object)
          (updObject s this (\<lambda>ob. ob\<lparr>objects := take index (objects (heap s this)) @ al
                                                  @ drop index (objects (heap s this))\<rparr>)) = Some s1"
    and a: "onAfterObjectsChange n B s1 this added al = Some s'"
    by (rule insertAt_cases)
  from al filterObjectsBeforeEnteringGroup_spec[OF anc, of objs] have e: "al = ?al" by simp
  note F = allowed_fresh[OF al]
  from c have dist: "distinct (objects (heap s this))" by (simp add: consistent_def)
  note ks = insert_kids[OF dist F, of index]
  note E = enter_all[OF c F ks f a]
  show "objects (heap s' this) = take index (objects (heap s this)) @ ?al @ drop index (objects (heap s this))"
    using E(2) e by simp
  show "\<forall>y. group (heap s' y) = (if y \<in> set ?al then Some this else group (heap s y))" using E(3) e by simp
  show "\<forall>y. y \<noteq> this \<longrightarrow> objects (heap s' y) = filter (\<lambda>x. x \<notin> set ?al) (objects (heap s y))" using E(4) e by simp
  show "canvases s' = canvases s" by (rule E(5))
qed

section \<open>The operations return on a finite forest\<close>

lemma forEach_total:
  assumes "P s" and "\<And>x t. x \<in> set xs \<Longrightarrow> P t \<Longrightarrow> \<exists>t'. f x t = Some t' \<and> P t'"
  shows "\<exists>s'. forEach xs f s = Some s' \<and> P s'"
  using assms
proof (induction xs arbitrary: s)
  case Nil
  then show ?case by simp
next
  case (Cons x xs)
  from Cons.prems(2)[of x s] Cons.prems(1) obtain t where t: "f x s = Some t" "P t" by auto
  from Cons.IH[OF t(2)] Cons.prems(2) obtain s' where "forEach xs f t = Some s'" "P s'" by auto
  with t show ?case by simp
qed

subsection \<open>Chains of parents\<close>

lemma strict_chain_elems:
  assumes b: "bounded N h"
  shows "isChain h True (parentOf h True a) xs \<Longrightarrow> \<forall>x\<in>set xs. \<exists>g<N. x = Obj g"
proof (induction xs arbitrary: a)
  case Nil
  then show ?case by simp
next
  case (Cons y ys)
  then have p: "parentOf h True a = Some y" and c: "isChain h True (parentOf h True y) ys" by auto
  from p obtain x g where "a = Obj x" "group (h x) = Some g" "y = Obj g"
    by (cases a) (auto simp: parentOf_def split: option.splits)
  with b have "\<exists>g<N. y = Obj g" by (auto simp: bounded_def)
  with Cons.IH[OF c] show ?case by simp
qed

lemma strict_chain_length:
  assumes b: "bounded N h" and c: "isChain h True (parentOf h True a) xs"
  shows "length xs \<le> N"
proof -
  have "set xs \<subseteq> Obj ` {..<N}" using strict_chain_elems[OF b c] by auto
  then have "card (set xs) \<le> card (Obj ` {..<N})" by (intro card_mono) auto
  also have "\<dots> \<le> N" using card_image_le[of "{..<N}" Obj] by simp
  finally show ?thesis using isChain_distinct[OF c] by (simp add: distinct_card)
qed

lemma nonstrict_chain:
  "isChain h True (parentOf h True (Obj x)) xs \<Longrightarrow>
   \<exists>ys. isChain h False (parentOf h False (Obj x)) ys \<and> length ys \<le> Suc (length xs)
        \<and> (\<forall>g. Obj g \<in> set ys \<longleftrightarrow> Obj g \<in> set xs)"
proof (induction xs arbitrary: x)
  case Nil
  then have g: "group (h x) = None" by (simp add: parentOf_def split: option.splits)
  show ?case
  proof (cases "canvas (h x)")
    case None
    with g have "isChain h False (parentOf h False (Obj x)) []" by (simp add: parentOf_def)
    then show ?thesis by (intro exI[of _ "[]"]) simp
  next
    case (Some c)
    with g have "isChain h False (parentOf h False (Obj x)) [Cnv c]" by (simp add: parentOf_def)
    then show ?thesis by (intro exI[of _ "[Cnv c]"]) simp
  qed
next
  case (Cons a xs)
  then obtain g where g: "group (h x) = Some g" and a: "a = Obj g"
    and c: "isChain h True (parentOf h True (Obj g)) xs"
    by (auto simp: parentOf_def split: option.splits)
  from Cons.IH[OF c] obtain ys where ys: "isChain h False (parentOf h False (Obj g)) ys"
    "length ys \<le> Suc (length xs)" "\<forall>g'. Obj g' \<in> set ys \<longleftrightarrow> Obj g' \<in> set xs" by blast
  from g ys(1) have "isChain h False (parentOf h False (Obj x)) (Obj g # ys)" by (simp add: parentOf_def)
  with ys(2,3) a show ?case by (intro exI[of _ "Obj g # ys"]) auto
qed

lemma getAncestors_total:
  assumes "acyclicGroups h" and "bounded N h" and "Suc N < n"
  shows "\<exists>anc. getAncestors n h x False = Some anc"
proof -
  from assms(1) obtain xs where xs: "isChain h True (parentOf h True (Obj x)) xs"
    by (auto simp: acyclicGroups_def)
  from strict_chain_length[OF assms(2) xs] have "length xs \<le> N" .
  moreover from nonstrict_chain[OF xs] obtain ys where
    "isChain h False (parentOf h False (Obj x)) ys" "length ys \<le> Suc (length xs)" by blast
  ultimately show ?thesis using assms(3) by (auto simp: getAncestors_iff)
qed

lemma isDescendantOf_total:
  assumes "acyclicGroups h" and "bounded N h" and "Suc N < n"
  shows "\<exists>d. isDescendantOf n h x t = Some d"
proof -
  from getAncestors_total[OF assms, of x] obtain anc where "getAncestors n h x False = Some anc" ..
  then have "isChain h False (parentOf h False (Obj x)) anc" "length anc < n"
    by (simp_all add: getAncestors_iff)
  from isDescendantOf_loop_chain[OF this, of t] show ?thesis by (simp add: isDescendantOf_def)
qed

lemma strict_in_nonstrict:
  assumes "isChain h True (parentOf h True (Obj x)) cs" and "getAncestors n h x False = Some anc"
  shows "Obj g \<in> set cs \<longleftrightarrow> Obj g \<in> set anc"
proof -
  from nonstrict_chain[OF assms(1)] obtain ys where ys: "isChain h False (parentOf h False (Obj x)) ys"
    "\<forall>g. Obj g \<in> set ys \<longleftrightarrow> Obj g \<in> set cs" by blast
  from assms(2) have "isChain h False (parentOf h False (Obj x)) anc" by (simp add: getAncestors_iff)
  from isChain_unique[OF ys(1) this] ys(2) show ?thesis by simp
qed

lemma isChain_strict_upd:
  "isChain h True p xs \<Longrightarrow> \<forall>g. Obj g \<in> set xs \<longrightarrow> group (h' g) = group (h g) \<Longrightarrow> isChain h' True p xs"
proof (induction xs arbitrary: p)
  case Nil
  then show ?case by simp
next
  case (Cons a xs)
  then have p: "p = Some a" and c: "isChain h True (parentOf h True a) xs" by auto
  have "parentOf h' True a = parentOf h True a"
    using Cons.prems(2) by (cases a) (auto simp: parentOf_def)
  with Cons.IH[of "parentOf h True a"] c Cons.prems(2) p show ?case by simp
qed

text \<open>Clearing parent references keeps the forest a forest.\<close>

lemma acyclic_cut:
  assumes a: "acyclicGroups h" and g: "\<forall>y. group (h' y) = group (h y) \<or> group (h' y) = None"
  shows "acyclicGroups h'"
proof -
  have par: "parentOf h' True a = parentOf h True a \<or> parentOf h' True a = None" for a
  proof (cases a)
    case (Obj x)
    from g[THEN spec, of x] show ?thesis using Obj by (auto simp: parentOf_def)
  next
    case (Cnv c)
    then show ?thesis by (simp add: parentOf_def)
  qed
  have key: "isChain h True p xs \<Longrightarrow> \<exists>ys. isChain h' True p ys" for p xs
  proof (induction xs arbitrary: p)
    case Nil
    then show ?case by (intro exI[of _ "[]"]) simp
  next
    case (Cons b xs)
    then have p: "p = Some b" and c: "isChain h True (parentOf h True b) xs" by auto
    from par[of b] show ?case
    proof
      assume e: "parentOf h' True b = parentOf h True b"
      from Cons.IH[OF c] obtain ys where "isChain h' True (parentOf h True b) ys" ..
      with e p have "isChain h' True p (b # ys)" by simp
      then show ?thesis ..
    next
      assume "parentOf h' True b = None"
      with p have "isChain h' True p [b]" by simp
      then show ?thesis ..
    qed
  qed
  show ?thesis
    unfolding acyclicGroups_def
  proof
    fix x
    from a obtain xs where xs: "isChain h True (parentOf h True (Obj x)) xs" by (auto simp: acyclicGroups_def)
    from par[of "Obj x"] show "\<exists>ys. isChain h' True (parentOf h' True (Obj x)) ys"
    proof
      assume "parentOf h' True (Obj x) = parentOf h True (Obj x)"
      with key[OF xs] show ?thesis by simp
    next
      assume "parentOf h' True (Obj x) = None"
      then have "isChain h' True (parentOf h' True (Obj x)) []" by simp
      then show ?thesis ..
    qed
  qed
qed

text \<open>
  Giving the object \<open>ob\<close> the parent \<open>this\<close> keeps the forest a forest when \<open>ob\<close> is neither
  \<open>this\<close> nor one of its ancestors: this is what the cycle guard is for.
\<close>

lemma acyclic_reparent:
  assumes a: "acyclicGroups h"
      and cs: "isChain h True (parentOf h True (Obj this)) cs"
      and n: "Obj ob \<notin> set cs" and ne: "ob \<noteq> this"
      and g: "\<forall>y. group (h' y) = (if y = ob then Some this else group (h y))"
  shows "acyclicGroups h'" and "isChain h' True (parentOf h' True (Obj this)) cs"
proof -
  have pt: "parentOf h' True (Obj this) = parentOf h True (Obj this)"
    using g ne by (simp add: parentOf_def)
  have "\<forall>g'. Obj g' \<in> set cs \<longrightarrow> group (h' g') = group (h g')" using g n by auto
  from isChain_strict_upd[OF cs this] pt show cs': "isChain h' True (parentOf h' True (Obj this)) cs"
    by simp
  have po: "parentOf h' True (Obj ob) = Some (Obj this)" using g by (simp add: parentOf_def)
  have ob: "isChain h' True (parentOf h' True (Obj ob)) (Obj this # cs)" using po cs' by simp
  have par: "b \<noteq> Obj ob \<Longrightarrow> parentOf h' True b = parentOf h True b" for b
    using g by (cases b) (auto simp: parentOf_def)
  have key: "isChain h True p xs \<Longrightarrow> \<exists>ys. isChain h' True p ys" for p xs
  proof (induction xs arbitrary: p)
    case Nil
    then show ?case by (intro exI[of _ "[]"]) simp
  next
    case (Cons b xs)
    then have p: "p = Some b" and c: "isChain h True (parentOf h True b) xs" by auto
    show ?case
    proof (cases "b = Obj ob")
      case True
      with p ob have "isChain h' True p (Obj ob # Obj this # cs)" by simp
      then show ?thesis ..
    next
      case False
      from Cons.IH[OF c] obtain ys where "isChain h' True (parentOf h True b) ys" ..
      with par[OF False] p have "isChain h' True p (b # ys)" by simp
      then show ?thesis ..
    qed
  qed
  show "acyclicGroups h'"
    unfolding acyclicGroups_def
  proof
    fix x
    show "\<exists>ys. isChain h' True (parentOf h' True (Obj x)) ys"
    proof (cases "x = ob")
      case True
      with ob show ?thesis by blast
    next
      case False
      from a obtain xs where xs: "isChain h True (parentOf h True (Obj x)) xs" by (auto simp: acyclicGroups_def)
      from False have "parentOf h' True (Obj x) = parentOf h True (Obj x)" by (intro par) simp
      with key[OF xs] show ?thesis by simp
    qed
  qed
qed

subsection \<open>The canvas setter\<close>

lemma set_canvas_total:
  assumes "\<forall>g c. c \<in> set (objects (heap s g)) \<longrightarrow> c < N"
      and "x < N"
      and "card {y. y < N \<and> canvas (heap s y) \<noteq> v} < n"
  shows "\<exists>s'. set_canvas n s x v = Some s'"
  using assms
proof (induction n arbitrary: s x)
  case 0
  then show ?case by simp
next
  case (Suc m)
  let ?A = "\<lambda>t. {y. y < N \<and> canvas (heap t y) \<noteq> v}"
  have fin: "finite (?A t)" for t by simp
  show ?case
  proof (cases "canvas (heap s x) = v")
    case True
    then show ?thesis by (simp add: set_canvas.simps Let_def)
  next
    case False
    let ?s1 = "updObject s x (\<lambda>ob. ob\<lparr>canvas := v\<rparr>)"
    let ?P = "\<lambda>t. (\<forall>g c. c \<in> set (objects (heap t g)) \<longrightarrow> c < N) \<and> card (?A t) < m"
    have k1: "objects (heap ?s1 g) = objects (heap s g)" for g by (simp add: updObject_def)
    have A1: "?A ?s1 = ?A s - {x}" by (auto simp: updObject_def)
    have xin: "x \<in> ?A s" using False Suc.prems(2) by simp
    then have "card (?A ?s1) = card (?A s) - 1" unfolding A1 by (simp add: card_Diff_singleton)
    moreover have "0 < card (?A s)" using xin fin[of s] by (auto simp: card_gt_0_iff)
    ultimately have "card (?A ?s1) < m" using Suc.prems(3) by simp
    then have P1: "?P ?s1" using Suc.prems(1) by (simp add: k1)
    have step: "\<exists>t'. set_canvas m t c v = Some t' \<and> ?P t'"
      if c: "c \<in> set (objects (heap ?s1 x))" and P: "?P t" for c t
    proof -
      from c Suc.prems(1) have "c < N" by (auto simp: k1)
      from Suc.IH[OF _ this, of t] P obtain t' where t': "set_canvas m t c v = Some t'" by blast
      note F = set_canvas_frame[OF t']
      have kk: "objects (heap t' g) = objects (heap t g)" for g
        using set_canvas_field[OF t', of objects g] by simp
      have "?A t' \<subseteq> ?A t"
      proof
        fix y assume y: "y \<in> ?A t'"
        from F obtain c' where "heap t' y = (heap t y)\<lparr>canvas := c'\<rparr>" "c' = v \<or> c' = canvas (heap t y)" by blast
        with y show "y \<in> ?A t" by auto
      qed
      then have "card (?A t') \<le> card (?A t)" by (intro card_mono fin)
      with P kk t' show ?thesis by auto
    qed
    from forEach_total[of ?P ?s1 "objects (heap ?s1 x)" "\<lambda>object st. set_canvas m st object v", OF P1 step]
    obtain s' where "forEach (objects (heap ?s1 x)) (\<lambda>object st. set_canvas m st object v) ?s1 = Some s'"
      by blast
    with False show ?thesis by (simp add: set_canvas.simps Let_def)
  qed
qed

lemma set_canvas_returns:
  assumes "bounded N (heap s)" and "x < N" and "N < n"
  shows "\<exists>s'. set_canvas n s x v = Some s'"
proof -
  have "card {y. y < N \<and> canvas (heap s y) \<noteq> v} \<le> card {..<N}" by (intro card_mono) auto
  then have "card {y. y < N \<and> canvas (heap s y) \<noteq> v} < n" using assms(3) by simp
  moreover from assms(1) have "\<forall>g c. c \<in> set (objects (heap s g)) \<longrightarrow> c < N" by (simp add: bounded_def)
  ultimately show ?thesis using assms(2) by (intro set_canvas_total)
qed

end
